theory Spec2Isabelle
  imports Complex_Main
begin

section \<open>Strings and text normalisation (pkg/scraper.go, cleanText)\<close>

text \<open>
  A Go string is modelled as the sequence of runes that \<^verbatim>\<open>range\<close> reads from it:
  a code point for each well-formed UTF-8 sequence (an ill-formed byte counts as one
  rune that is no white space, as Go's decoder treats it). The functions of package
  \<^verbatim>\<open>strings\<close> used by the scraper work rune by rune, and every literal the
  scraper concatenates or compares with is ASCII, so the operations below are the
  operations on the underlying bytes.
\<close>

type_synonym rune = nat
type_synonym gostring = "rune list"

definition str :: "string \<Rightarrow> gostring" where
  "str s = map of_char s"

text \<open>
  \<^verbatim>\<open>unicode.IsSpace\<close>: in Latin-1 the runes
  \<^verbatim>\<open>'\t', '\n', '\v', '\f', '\r', ' ', U+0085, U+00A0\<close>; beyond Latin-1 the
  code points of the \<^verbatim>\<open>White_Space\<close> table.
\<close>

definition IsSpace :: "rune \<Rightarrow> bool" where
  "IsSpace r =
     (if r \<le> 0xFF then r = 0x09 \<or> r = 0x0A \<or> r = 0x0B \<or> r = 0x0C \<or> r = 0x0D \<or> r = 0x20
                        \<or> r = 0x85 \<or> r = 0xA0
      else r = 0x1680 \<or> (0x2000 \<le> r \<and> r \<le> 0x200A) \<or> r = 0x2028 \<or> r = 0x2029
           \<or> r = 0x202F \<or> r = 0x205F \<or> r = 0x3000)"

text \<open>
  \<^verbatim>\<open>strings.Fields\<close>: the loop of \<^verbatim>\<open>FieldsFunc\<close> over the runes of the
  string. \<open>cur\<close> is the field that is open (Go keeps its start index, \<open>start >= 0\<close>);
  a white-space rune closes it, the end of the string closes the last one.
\<close>

fun FieldsFrom :: "gostring \<Rightarrow> gostring \<Rightarrow> gostring list" where
  "FieldsFrom cur [] = (if cur = [] then [] else [cur])"
| "FieldsFrom cur (r # rs) =
     (if IsSpace r then (if cur = [] then FieldsFrom [] rs else cur # FieldsFrom [] rs)
      else FieldsFrom (cur @ [r]) rs)"

definition Fields :: "gostring \<Rightarrow> gostring list" where
  "Fields s = FieldsFrom [] s"

text \<open>\<^verbatim>\<open>strings.Join\<close>: the elements with the separator between them.\<close>

fun Join :: "gostring list \<Rightarrow> gostring \<Rightarrow> gostring" where
  "Join [] sep = []"
| "Join [x] sep = x"
| "Join (x # y # ys) sep = x @ sep @ Join (y # ys) sep"

text \<open>\<^verbatim>\<open>strings.TrimSpace\<close>: all leading and trailing white space removed.\<close>

definition TrimSpace :: "gostring \<Rightarrow> gostring" where
  "TrimSpace s = rev (dropWhile IsSpace (rev (dropWhile IsSpace s)))"

text \<open>\<^verbatim>\<open>strings.Contains\<close>.\<close>

fun Contains :: "gostring \<Rightarrow> gostring \<Rightarrow> bool" where
  "Contains [] sub = (sub = [])"
| "Contains (c # s) sub = (take (length sub) (c # s) = sub \<or> Contains s sub)"

text \<open>\<^verbatim>\<open>strings.HasPrefix\<close>.\<close>

definition HasPrefix :: "gostring \<Rightarrow> gostring \<Rightarrow> bool" where
  "HasPrefix s p = (length p \<le> length s \<and> take (length p) s = p)"

text \<open>
  \<^verbatim>\<open>func cleanText(text string) string {
      return strings.TrimSpace(strings.Join(strings.Fields(text), " ")) }\<close>
\<close>

definition cleanText :: "gostring \<Rightarrow> gostring" where
  "cleanText text = TrimSpace (Join (Fields text) (str '' ''))"

text \<open>
  The normalisation as the specification words it, to compare \<open>cleanText\<close> with:
  every run of white space becomes a single space, then leading and trailing white
  space is trimmed.
\<close>

function collapse_runs :: "gostring \<Rightarrow> gostring" where
  "collapse_runs [] = []"
| "collapse_runs (r # rs) =
     (if IsSpace r then 0x20 # collapse_runs (dropWhile IsSpace rs) else r # collapse_runs rs)"
  by pat_completeness auto
termination
  by (relation "measure length") (auto simp: length_dropWhile_le less_Suc_eq_le)

definition trim_ends :: "gostring \<Rightarrow> gostring" where
  "trim_ends s = rev (dropWhile IsSpace (rev (dropWhile IsSpace s)))"

definition normalize_spec :: "gostring \<Rightarrow> gostring" where
  "normalize_spec s = trim_ends (collapse_runs s)"


section \<open>Errors (packages errors, fmt and context)\<close>

text \<open>
  A Go error value: \<open>ErrorString\<close> is what \<^verbatim>\<open>errors.New\<close> and
  \<^verbatim>\<open>fmt.Errorf\<close> without \<^verbatim>\<open>%w\<close> build; \<open>WrapError m e\<close> is what
  \<^verbatim>\<open>fmt.Errorf\<close> with \<^verbatim>\<open>%w\<close> builds, \<open>m\<close> the formatted message and
  \<open>e\<close> the wrapped error; \<open>Canceled\<close> and \<open>DeadlineExceeded\<close> are the two
  errors of package \<^verbatim>\<open>context\<close>.
\<close>

datatype error =
    ErrorString gostring
  | WrapError gostring error
  | Canceled
  | DeadlineExceeded

fun Error :: "error \<Rightarrow> gostring" where
  "Error (ErrorString m) = m"
| "Error (WrapError m e) = m"
| "Error Canceled = str ''context canceled''"
| "Error DeadlineExceeded = str ''context deadline exceeded''"

fun Unwrap :: "error \<Rightarrow> error option" where
  "Unwrap (WrapError m e) = Some e"
| "Unwrap (ErrorString m) = None"
| "Unwrap Canceled = None"
| "Unwrap DeadlineExceeded = None"

text \<open>\<^verbatim>\<open>fmt.Errorf(msg + "%w", e)\<close>: every format of the scraper ends in \<^verbatim>\<open>%w\<close>.\<close>

definition Errorf_w :: "gostring \<Rightarrow> error \<Rightarrow> error" where
  "Errorf_w msg e = WrapError (msg @ Error e) e"

text \<open>The verb \<^verbatim>\<open>%d\<close> of an int.\<close>

fun digits :: "nat \<Rightarrow> gostring" where
  "digits n = (if n < 10 then [48 + n] else digits (n div 10) @ [48 + n mod 10])"

definition itoa :: "int \<Rightarrow> gostring" where
  "itoa i = (if i < 0 then 45 # digits (nat (- i)) else digits (nat i))"


section \<open>Data model (pkg/scraper.go)\<close>

record ScraperConfig =
  ConcurrentRequests :: int
  RequestsPerSecond :: real
  Timeout :: int

text \<open>\<open>Timeout\<close> is a \<^verbatim>\<open>time.Duration\<close>, a number of nanoseconds.\<close>

definition DefaultConfig :: ScraperConfig where
  "DefaultConfig = \<lparr>ConcurrentRequests = 3, RequestsPerSecond = 1.0, Timeout = 2 * (60 * 1000000000)\<rparr>"

record Article =
  Title :: gostring
  URL :: gostring
  Summary :: gostring
  Date :: nat

text \<open>
  A \<^verbatim>\<open>colly.HTMLElement\<close>, as far as the scraper reads it: the text of the children
  that match a selector, and an attribute of the first child that matches one.
\<close>

record HTMLElement =
  ChildText :: "gostring \<Rightarrow> gostring"
  ChildAttr :: "gostring \<Rightarrow> gostring \<Rightarrow> gostring"

text \<open>
  The \<^verbatim>\<open>colly.Collector\<close>. The callbacks registered with \<^verbatim>\<open>OnHTML\<close> and
  \<^verbatim>\<open>OnError\<close> are closures over the local variables of the \<open>scrapeURL\<close> call
  that registered them; a closure is kept as the index of that call's frame (below).
  \<open>visited\<close> is the collector's store of visited URLs.
\<close>

record Collector =
  UserAgent :: gostring
  MaxDepth :: int
  AllowURLRevisit :: bool
  visited :: "gostring list"
  htmlCallbacks :: "nat list"
  errorCallbacks :: "nat list"

text \<open>
  The \<^verbatim>\<open>rate.Limiter\<close>: its rate, its burst, and the number of tokens that
  \<^verbatim>\<open>Wait\<close> has reserved and not given back. When a token becomes available is a
  matter of real time and is left to the scheduler of the model.
\<close>

record Limiter =
  limit :: real
  burst :: int
  reserved :: nat

record MagazineScraper =
  collector :: Collector
  limiter :: Limiter
  config :: ScraperConfig

text \<open>
  The local variables of one \<open>scrapeURL\<close> call that its closures and its goroutine
  share: \<^verbatim>\<open>articles\<close>, \<^verbatim>\<open>scrapeErr\<close> and whether the channel \<^verbatim>\<open>done\<close>
  is closed.
\<close>

record frame =
  f_articles :: "Article list"
  scrapeErr :: "error option"
  done_closed :: bool

text \<open>
  What a step of the program can read and change: the scraper, the frames of the
  \<open>scrapeURL\<close> calls made so far, the goroutines started by \<open>scrapeURL\<close> that have not
  yet run (frame and URL), the network requests issued so far, and the number of
  readings of the clock.
\<close>

record world =
  scraper :: MagazineScraper
  frames :: "frame list"
  goroutines :: "(nat \<times> gostring) list"
  requests :: "gostring list"
  readings :: nat

text \<open>
  What the network answers to a request is the environment's:
  \<open>Page\<close> gives the elements of the document that match \<^verbatim>\<open>article.item\<close>, in
  document order; \<open>Failure status err\<close> is a transport error or a non-success status,
  on which colly calls the \<^verbatim>\<open>OnError\<close> callbacks and \<^verbatim>\<open>Visit\<close> returns
  \<open>err\<close>; \<open>Refused err\<close> is a URL that \<^verbatim>\<open>Visit\<close> rejects before any request
  (it does not parse). \<open>now k\<close> is the \<open>k\<close>-th reading of \<^verbatim>\<open>time.Now()\<close>.
\<close>

datatype response = Page "HTMLElement list" | Failure int error | Refused error

record env =
  respond :: "gostring \<Rightarrow> response"
  now :: "nat \<Rightarrow> nat"

text \<open>
  colly's \<^verbatim>\<open>ErrAlreadyVisited\<close>, with the text it has in colly v2.1.0 (later
  versions name the URL in it); no property below depends on the text.
\<close>

definition ErrAlreadyVisited :: error where
  "ErrAlreadyVisited = ErrorString (str ''URL already visited'')"

definition NewMagazineScraper :: "ScraperConfig \<Rightarrow> MagazineScraper" where
  "NewMagazineScraper cfg =
     \<lparr>collector = \<lparr>UserAgent = str ''Mozilla/5.0 (Windows NT 10.0; Win64; x64) AppleWebKit/537.36 (KHTML, like Gecko) Chrome/91.0.4472.124 Safari/537.36'',
                   MaxDepth = 1, AllowURLRevisit = False, visited = [],
                   htmlCallbacks = [], errorCallbacks = []\<rparr>,
      limiter = \<lparr>limit = RequestsPerSecond cfg, burst = 1, reserved = 0\<rparr>,
      config = cfg\<rparr>"

definition new_world :: "ScraperConfig \<Rightarrow> world" where
  "new_world cfg = \<lparr>scraper = NewMagazineScraper cfg, frames = [], goroutines = [],
                    requests = [], readings = 0\<rparr>"


section \<open>scrapeURL\<close>

text \<open>
  The \<^verbatim>\<open>OnHTML("article.item", ...)\<close> callback of a call, run on one element at
  clock reading \<open>t\<close>; \<open>f\<close> is the frame of the call that registered it.
\<close>

definition new_article :: "nat \<Rightarrow> HTMLElement \<Rightarrow> Article" where
  "new_article t e =
     \<lparr>Title = cleanText (ChildText e (str ''h3'')),
      URL = ChildAttr e (str ''a'') (str ''href''),
      Summary = cleanText (ChildText e (str ''p.description'')),
      Date = t\<rparr>"

definition onHTML :: "nat \<Rightarrow> HTMLElement \<Rightarrow> frame \<Rightarrow> frame" where
  "onHTML t e f =
     (let article = new_article t e
      in if Title article \<noteq> [] then f\<lparr>f_articles := f_articles f @ [article]\<rparr> else f)"

text \<open>The \<^verbatim>\<open>OnError\<close> callback of a call.\<close>

definition onError :: "int \<Rightarrow> error \<Rightarrow> frame \<Rightarrow> frame" where
  "onError status err f =
     f\<lparr>scrapeErr := Some (Errorf_w (str ''request failed with status '' @ itoa status @ str '': '') err)\<rparr>"

text \<open>
  colly runs every registered \<^verbatim>\<open>OnHTML\<close> callback, in the order of registration,
  on every matching element; the callbacks of earlier calls are still registered.
\<close>

fun call_html :: "env \<Rightarrow> nat \<Rightarrow> HTMLElement list \<Rightarrow> world \<Rightarrow> world" where
  "call_html env fid [] w = w"
| "call_html env fid (e # es) w =
     call_html env fid es
       (w\<lparr>frames := (frames w)[fid := onHTML (now env (readings w)) e (frames w ! fid)],
          readings := Suc (readings w)\<rparr>)"

definition handleOnHTML :: "env \<Rightarrow> HTMLElement list \<Rightarrow> world \<Rightarrow> world" where
  "handleOnHTML env els w =
     fold (\<lambda>fid. call_html env fid els) (htmlCallbacks (collector (scraper w))) w"

definition handleOnError :: "int \<Rightarrow> error \<Rightarrow> world \<Rightarrow> world" where
  "handleOnError status err w =
     fold (\<lambda>fid w'. w'\<lparr>frames := (frames w')[fid := onError status err (frames w' ! fid)]\<rparr>)
       (errorCallbacks (collector (scraper w))) w"

text \<open>
  \<^verbatim>\<open>collector.Visit(url)\<close> of a synchronous collector: a URL that was visited is
  refused unless \<open>AllowURLRevisit\<close> is set (\<open>seen\<close>); otherwise it is recorded, the
  request is issued (\<open>w1\<close>) and the callbacks run on the answer.
\<close>

definition Visit :: "env \<Rightarrow> gostring \<Rightarrow> world \<Rightarrow> error option \<times> world" where
  "Visit env url w =
     (let c = collector (scraper w);
          seen = (\<not> AllowURLRevisit c \<and> url \<in> set (visited c));
          w1 = w\<lparr>scraper := (scraper w)\<lparr>collector :=
                    c\<lparr>visited := (if AllowURLRevisit c then visited c else visited c @ [url])\<rparr>\<rparr>,
                requests := requests w @ [url]\<rparr>
      in case respond env url of
           Refused err \<Rightarrow> (Some err, w)
         | Failure status err \<Rightarrow>
             if seen then (Some ErrAlreadyVisited, w) else (Some err, handleOnError status err w1)
         | Page els \<Rightarrow>
             if seen then (Some ErrAlreadyVisited, w) else (None, handleOnHTML env els w1))"

text \<open>
  The first part of \<open>scrapeURL\<close>: the check of the prefix; then the call has its
  variables (a new frame), registers its two callbacks on the shared collector and
  starts its goroutine. \<open>Inr fid\<close> is the frame of the call.
\<close>

definition registered :: "gostring \<Rightarrow> world \<Rightarrow> world" where
  "registered url w =
     w\<lparr>frames := frames w @ [\<lparr>f_articles = [], scrapeErr = None, done_closed = False\<rparr>],
       scraper := (scraper w)\<lparr>collector := (collector (scraper w))
           \<lparr>htmlCallbacks := htmlCallbacks (collector (scraper w)) @ [length (frames w)],
             errorCallbacks := errorCallbacks (collector (scraper w)) @ [length (frames w)]\<rparr>\<rparr>,
       goroutines := goroutines w @ [(length (frames w), url)]\<rparr>"

definition scrape_begin :: "gostring \<Rightarrow> world \<Rightarrow> (error + nat) \<times> world" where
  "scrape_begin url w =
     (if \<not> HasPrefix url (str ''https://flipboard.com/'')
      then (Inl (ErrorString (str ''invalid Flipboard URL: '' @ url)), w)
      else (Inr (length (frames w)), registered url w))"

text \<open>
  The goroutine of a call: \<^verbatim>\<open>Visit\<close>, \<^verbatim>\<open>scrapeErr\<close> set when it fails,
  \<^verbatim>\<open>close(done)\<close>.
\<close>

definition run_goroutine :: "env \<Rightarrow> nat \<Rightarrow> gostring \<Rightarrow> world \<Rightarrow> world" where
  "run_goroutine env fid url w =
     (let (err, w1) = Visit env url w;
          w2 = (case err of
                  None \<Rightarrow> w1
                | Some e \<Rightarrow> w1\<lparr>frames := (frames w1)[fid := (frames w1 ! fid)
                               \<lparr>scrapeErr := Some (Errorf_w (str ''failed to start scraping: '') e)\<rparr>]\<rparr>)
      in w2\<lparr>frames := (frames w2)[fid := (frames w2 ! fid)\<lparr>done_closed := True\<rparr>],
            goroutines := remove1 (fid, url) (goroutines w2)\<rparr>)"

text \<open>The two cases of the \<^verbatim>\<open>select\<close>.\<close>

definition select_ctx :: "error \<Rightarrow> world \<Rightarrow> (Article list \<times> error option) \<times> world" where
  "select_ctx e w =
     (([], Some (Errorf_w (str ''scraping cancelled: '') e)),
      w\<lparr>scraper := (scraper w)\<lparr>collector := (collector (scraper w))\<lparr>AllowURLRevisit := True\<rparr>\<rparr>\<rparr>)"

definition select_done :: "nat \<Rightarrow> world \<Rightarrow> (Article list \<times> error option) \<times> world" where
  "select_done fid w =
     (case scrapeErr (frames w ! fid) of
        Some e \<Rightarrow> (([], Some e), w)
      | None \<Rightarrow> ((f_articles (frames w ! fid), None), w))"

text \<open>
  The context of a call, over the time of the call: \<open>Live\<close>, it is not done before the
  call returns; \<open>DoneBefore e\<close>, it is done, with \<^verbatim>\<open>ctx.Err() = e\<close>, before the
  goroutine closes \<^verbatim>\<open>done\<close> (already when the call starts, or while the page is
  fetched and its blocks are extracted); \<open>DoneAfter e\<close>, it gets done after
  \<^verbatim>\<open>done\<close> is closed and before the call returns.
\<close>

datatype ctx = Live | DoneBefore error | DoneAfter error

text \<open>
  The scheduler's part in a call. \<open>SelectFirst\<close>: the call reaches its select while
  \<^verbatim>\<open>done\<close> is still open; the select takes \<^verbatim>\<open>ctx.Done()\<close> when the context is
  done by then, and otherwise waits for the first of the two channels that gets ready.
  \<open>GoroutineFirst p\<close>: the goroutine has closed \<^verbatim>\<open>done\<close> when the select is
  evaluated; when the context is done as well by then, both cases are ready and Go
  takes one of them at random, \<open>p\<close>.
\<close>

datatype pick = PickDone | PickCtx

datatype timing = SelectFirst | GoroutineFirst pick

text \<open>
  The case the select takes: \<^verbatim>\<open>done\<close>, or \<^verbatim>\<open>ctx.Done()\<close> with
  \<^verbatim>\<open>ctx.Err() = e\<close>, after the goroutine has run (\<open>gone\<close>) or before it has
  (the goroutine is then left behind, still to run).
\<close>

datatype branch = TakeDone | TakeCtx error bool

text \<open>
  A select that waits takes the case of the channel that gets ready first; a select
  that finds one channel ready takes its case; a select that finds both ready takes
  the scheduler's pick.
\<close>

fun select_case :: "ctx \<Rightarrow> timing \<Rightarrow> branch" where
  "select_case Live t = TakeDone"
| "select_case (DoneBefore e) SelectFirst = TakeCtx e False"
| "select_case (DoneBefore e) (GoroutineFirst PickDone) = TakeDone"
| "select_case (DoneBefore e) (GoroutineFirst PickCtx) = TakeCtx e True"
| "select_case (DoneAfter e) SelectFirst = TakeDone"
| "select_case (DoneAfter e) (GoroutineFirst PickDone) = TakeDone"
| "select_case (DoneAfter e) (GoroutineFirst PickCtx) = TakeCtx e True"

definition scrapeURL ::
  "env \<Rightarrow> ctx \<Rightarrow> timing \<Rightarrow> gostring \<Rightarrow> world \<Rightarrow> (Article list \<times> error option) \<times> world" where
  "scrapeURL env c t url w =
     (case scrape_begin url w of
        (Inl err, w1) \<Rightarrow> (([], Some err), w1)
      | (Inr fid, w1) \<Rightarrow>
          (case select_case c t of
             TakeDone \<Rightarrow> select_done fid (run_goroutine env fid url w1)
           | TakeCtx e gone \<Rightarrow> select_ctx e (if gone then run_goroutine env fid url w1 else w1)))"

definition ScrapeURL ::
  "env \<Rightarrow> ctx \<Rightarrow> timing \<Rightarrow> gostring \<Rightarrow> world \<Rightarrow> (Article list \<times> error option) \<times> world" where
  "ScrapeURL env c t url w = scrapeURL env c t url w"


section \<open>ScrapeURLs\<close>

text \<open>
  The tasks given to \<^verbatim>\<open>g.Go\<close> run concurrently. A task is in one of these states:
  \<open>Pending\<close>, \<^verbatim>\<open>g.Go\<close> has not started it; \<open>Started\<close>, about to call
  \<^verbatim>\<open>s.limiter.Wait(ctx)\<close>; \<open>Sleeping\<close>, it holds a reservation and waits for
  its time or for the context; \<open>Scraping fid\<close>, it is in \<open>scrapeURL\<close> with the frame
  \<open>fid\<close>: its callbacks are registered, its goroutine is started, and it has not
  returned from its select;
  \<open>Finished\<close>, its closure has returned.
\<close>

datatype status = Pending | Started | Sleeping | Scraping nat | Finished

text \<open>
  The steps of the model are atomic; the mutex \<^verbatim>\<open>mu\<close>, which makes the append to
  the slice atomic, has no counterpart.
  \<open>gctx\<close> is the context the tasks see (the group's, derived from the one with the
  timeout): \<open>Some e\<close> once it is done, with \<^verbatim>\<open>ctx.Err() = e\<close>. \<open>gerr\<close> is the
  first error of the group, \<open>articles\<close> the slice the tasks append to. \<open>returned\<close>
  records the tasks in the order in which they returned: the index of the task, the
  articles it appended and the error of its closure.
\<close>

record group =
  wld :: world
  urls :: "gostring list"
  tasks :: "status list"
  gctx :: "error option"
  gerr :: "error option"
  articles :: "Article list"
  returned :: "(nat \<times> Article list \<times> error option) list"

fun active :: "status \<Rightarrow> bool" where
  "active Started = True"
| "active Sleeping = True"
| "active (Scraping fid) = True"
| "active Pending = False"
| "active Finished = False"

fun finished :: "status \<Rightarrow> bool" where
  "finished Finished = True"
| "finished Pending = False"
| "finished Started = False"
| "finished Sleeping = False"
| "finished (Scraping fid) = False"

text \<open>
  A task returns an error: errgroup keeps the first one and cancels the group's
  context (\<^verbatim>\<open>errOnce.Do\<close>).
\<close>

definition task_fail :: "nat \<Rightarrow> error \<Rightarrow> group \<Rightarrow> group" where
  "task_fail i e g =
     g\<lparr>tasks := (tasks g)[i := Finished],
       returned := returned g @ [(i, [], Some e)],
       gerr := (case gerr g of None \<Rightarrow> Some e | Some e0 \<Rightarrow> Some e0),
       gctx := (case gerr g of
                  None \<Rightarrow> (case gctx g of None \<Rightarrow> Some Canceled | Some c \<Rightarrow> Some c)
                | Some e0 \<Rightarrow> gctx g)\<rparr>"

text \<open>A task appends its page's articles and returns nil.\<close>

definition task_ok :: "nat \<Rightarrow> Article list \<Rightarrow> group \<Rightarrow> group" where
  "task_ok i arts g =
     g\<lparr>tasks := (tasks g)[i := Finished],
       returned := returned g @ [(i, arts, None)],
       articles := articles g @ arts\<rparr>"

text \<open>The end of the closure, from the return of \<open>scrapeURL\<close> on.\<close>

definition task_return :: "nat \<Rightarrow> gostring \<Rightarrow> Article list \<times> error option \<Rightarrow> group \<Rightarrow> group" where
  "task_return i url r g =
     (case snd r of
        Some e \<Rightarrow> task_fail i (Errorf_w (str ''failed to scrape '' @ url @ str '': '') e) g
      | None \<Rightarrow> task_ok i (fst r) g)"

definition limiter_reserve :: "world \<Rightarrow> world" where
  "limiter_reserve w =
     w\<lparr>scraper := (scraper w)\<lparr>limiter := (limiter (scraper w))\<lparr>reserved := Suc (reserved (limiter (scraper w)))\<rparr>\<rparr>\<rparr>"

definition limiter_cancel :: "world \<Rightarrow> world" where
  "limiter_cancel w =
     w\<lparr>scraper := (scraper w)\<lparr>limiter := (limiter (scraper w))\<lparr>reserved := reserved (limiter (scraper w)) - 1\<rparr>\<rparr>\<rparr>"

text \<open>
  The events of an execution, chosen by the scheduler and the environment:
  \<open>Go\<close>, the loop's next \<^verbatim>\<open>g.Go\<close> gets a slot and starts its task;
  \<open>WaitEnter i\<close>, task \<open>i\<close> enters \<^verbatim>\<open>limiter.Wait\<close>, which checks the context and
  reserves a token; \<open>WaitRefuse i\<close>, \<^verbatim>\<open>limiter.Wait\<close> finds that the wait would
  exceed the deadline; \<open>TimerFires i\<close>, the wait of task \<open>i\<close> ends and \<open>scrapeURL\<close>
  starts; \<open>WaitCancelled i\<close>, the wait sees \<^verbatim>\<open>ctx.Done()\<close> and gives the token
  back; \<open>RunVisit fid\<close>, the goroutine of frame \<open>fid\<close> runs; \<open>SelectDone i\<close> and
  \<open>SelectCtx i\<close>, the select of task \<open>i\<close> takes \<^verbatim>\<open>done\<close> or
  \<^verbatim>\<open>ctx.Done()\<close>; \<open>Cancel e\<close>, the timeout fires or the caller cancels.
  An event that is not enabled changes nothing.
\<close>

datatype event =
    Go
  | WaitEnter nat
  | WaitRefuse nat
  | TimerFires nat
  | WaitCancelled nat
  | RunVisit nat
  | SelectDone nat
  | SelectCtx nat
  | Cancel error

definition next_pending :: "group \<Rightarrow> nat" where
  "next_pending g = length (takeWhile (\<lambda>s. s \<noteq> Pending) (tasks g))"

fun step :: "env \<Rightarrow> event \<Rightarrow> group \<Rightarrow> group" where
  "step env Go g =
     (let k = next_pending g; n = ConcurrentRequests (config (scraper (wld g)))
      in if k < length (tasks g) \<and> (n < 0 \<or> int (length (filter active (tasks g))) < n)
         then g\<lparr>tasks := (tasks g)[k := Started]\<rparr> else g)"
| "step env (WaitEnter i) g =
     (if i < length (tasks g) \<and> tasks g ! i = Started
      then (case gctx g of
              Some e \<Rightarrow> task_fail i (Errorf_w (str ''rate limiter wait failed: '') e) g
            | None \<Rightarrow> g\<lparr>wld := limiter_reserve (wld g), tasks := (tasks g)[i := Sleeping]\<rparr>)
      else g)"
| "step env (WaitRefuse i) g =
     (if i < length (tasks g) \<and> tasks g ! i = Started \<and> gctx g = None
      then task_fail i (Errorf_w (str ''rate limiter wait failed: '')
                          (ErrorString (str ''rate: Wait(n=1) would exceed context deadline''))) g
      else g)"
| "step env (TimerFires i) g =
     (if i < length (tasks g) \<and> tasks g ! i = Sleeping
      then (case scrape_begin (urls g ! i) (wld g) of
              (Inl err, w1) \<Rightarrow> task_return i (urls g ! i) ([], Some err) (g\<lparr>wld := w1\<rparr>)
            | (Inr fid, w1) \<Rightarrow> g\<lparr>wld := w1, tasks := (tasks g)[i := Scraping fid]\<rparr>)
      else g)"
| "step env (WaitCancelled i) g =
     (if i < length (tasks g) \<and> tasks g ! i = Sleeping
      then (case gctx g of
              Some e \<Rightarrow> task_fail i (Errorf_w (str ''rate limiter wait failed: '') e)
                          (g\<lparr>wld := limiter_cancel (wld g)\<rparr>)
            | None \<Rightarrow> g)
      else g)"
| "step env (RunVisit fid) g =
     (case map_of (goroutines (wld g)) fid of
        Some url \<Rightarrow> g\<lparr>wld := run_goroutine env fid url (wld g)\<rparr>
      | None \<Rightarrow> g)"
| "step env (SelectDone i) g =
     (if i < length (tasks g)
      then (case tasks g ! i of
              Scraping fid \<Rightarrow>
                if done_closed (frames (wld g) ! fid)
                then (case select_done fid (wld g) of
                        (r, w1) \<Rightarrow> task_return i (urls g ! i) r (g\<lparr>wld := w1\<rparr>))
                else g
            | _ \<Rightarrow> g)
      else g)"
| "step env (SelectCtx i) g =
     (if i < length (tasks g)
      then (case tasks g ! i of
              Scraping fid \<Rightarrow>
                (case gctx g of
                   Some e \<Rightarrow> (case select_ctx e (wld g) of
                               (r, w1) \<Rightarrow> task_return i (urls g ! i) r (g\<lparr>wld := w1\<rparr>))
                 | None \<Rightarrow> g)
            | _ \<Rightarrow> g)
      else g)"
| "step env (Cancel e) g = (case gctx g of None \<Rightarrow> g\<lparr>gctx := Some e\<rparr> | Some c \<Rightarrow> g)"

definition run :: "env \<Rightarrow> event list \<Rightarrow> group \<Rightarrow> group" where
  "run env sched g = fold (step env) sched g"

text \<open>
  Every task ends: its wait ends with the timer or the context, its goroutine runs,
  its select returns. \<open>finish_task\<close> lets task \<open>i\<close> take the steps it has left, and
  \<open>finish_all\<close> does so for every task that the scheduler's events left unfinished,
  starting the pending ones as slots get free.
\<close>

definition finish_task :: "env \<Rightarrow> nat \<Rightarrow> group \<Rightarrow> group" where
  "finish_task env i g =
     (let g1 = step env (WaitEnter i) (step env Go g);
          g2 = step env (TimerFires i) g1;
          g3 = (case tasks g2 ! i of Scraping fid \<Rightarrow> step env (RunVisit fid) g2 | _ \<Rightarrow> g2)
      in step env (SelectDone i) g3)"

definition finish_all :: "env \<Rightarrow> group \<Rightarrow> group" where
  "finish_all env g = fold (finish_task env) [0..<length (tasks g)] g"

text \<open>
  The first failure among the tasks that have returned: the task and its error.
\<close>

fun first_failure :: "(nat \<times> Article list \<times> error option) list \<Rightarrow> (nat \<times> error) option" where
  "first_failure [] = None"
| "first_failure ((i, arts, Some e) # rs) = Some (i, e)"
| "first_failure ((i, arts, None) # rs) = first_failure rs"

text \<open>
  The two errors a task's closure can return: the one of the rate-limit wait, and the
  one of \<open>scrapeURL\<close>, which names the URL.
\<close>

definition wait_failure :: "error \<Rightarrow> bool" where
  "wait_failure e =
     (case Unwrap e of
        Some cause \<Rightarrow> e = Errorf_w (str ''rate limiter wait failed: '') cause
      | None \<Rightarrow> False)"

definition scrape_failure :: "gostring \<Rightarrow> error \<Rightarrow> bool" where
  "scrape_failure url e =
     (case Unwrap e of
        Some cause \<Rightarrow> e = Errorf_w (str ''failed to scrape '' @ url @ str '': '') cause
      | None \<Rightarrow> False)"

text \<open>
  The state in which the tasks start. \<open>c\<close> is the caller's context, \<open>Some e\<close> when it
  is done already; \<^verbatim>\<open>context.WithTimeout\<close> with a timeout that is not positive
  gives a context that is done.
\<close>

definition start :: "error option \<Rightarrow> gostring list \<Rightarrow> world \<Rightarrow> group" where
  "start c us w =
     \<lparr>wld = w, urls = us, tasks = replicate (length us) Pending,
      gctx = (case c of Some e \<Rightarrow> Some e
              | None \<Rightarrow> if Timeout (config (scraper w)) \<le> 0 then Some DeadlineExceeded else None),
      gerr = None, articles = [], returned = []\<rparr>"

text \<open>
  The state of the group after the events \<open>sched\<close>, and the state in which
  \<^verbatim>\<open>g.Wait()\<close> returns.
\<close>

definition reached :: "env \<Rightarrow> event list \<Rightarrow> error option \<Rightarrow> gostring list \<Rightarrow> world \<Rightarrow> group" where
  "reached env sched c us w = run env sched (start c us w)"

definition final_group :: "env \<Rightarrow> event list \<Rightarrow> error option \<Rightarrow> gostring list \<Rightarrow> world \<Rightarrow> group" where
  "final_group env sched c us w = finish_all env (reached env sched c us w)"

text \<open>
  \<open>ScrapeURLs\<close> under the events \<open>sched\<close>. The result is \<open>None\<close> when
  \<^verbatim>\<open>g.Wait()\<close> never returns (a limit of 0 lets \<^verbatim>\<open>g.Go\<close> start no task).
\<close>

definition ScrapeURLs ::
  "env \<Rightarrow> event list \<Rightarrow> error option \<Rightarrow> gostring list \<Rightarrow> world
     \<Rightarrow> ((Article list \<times> error option) \<times> world) option" where
  "ScrapeURLs env sched c us w =
     (if length us = 0 then Some (([], Some (ErrorString (str ''no URLs provided''))), w)
      else let g = final_group env sched c us w
           in if list_all finished (tasks g)
              then Some ((articles g,
                          (case gerr g of
                             None \<Rightarrow> None
                           | Some e \<Rightarrow> Some (Errorf_w (str ''scraping error: '') e))),
                         wld g)
              else None)"


section \<open>Notions used to state the properties\<close>

text \<open>What a record says, its time of observation left out.\<close>

definition content :: "Article \<Rightarrow> gostring \<times> gostring \<times> gostring" where
  "content a = (Title a, URL a, Summary a)"

text \<open>
  What one pass over a document's elements extracts: for each block its normalised
  title, its link and its normalised summary, the blocks with an empty normalised
  title left out.
\<close>

definition extracted :: "HTMLElement list \<Rightarrow> (gostring \<times> gostring \<times> gostring) list" where
  "extracted els =
     map (\<lambda>e. (cleanText (ChildText e (str ''h3'')), ChildAttr e (str ''a'') (str ''href''),
               cleanText (ChildText e (str ''p.description''))))
       (filter (\<lambda>e. cleanText (ChildText e (str ''h3'')) \<noteq> []) els)"

text \<open>
  The closures registered on the collector belong to calls that were made: each is
  the index of a frame.
\<close>

definition wf_world :: "world \<Rightarrow> bool" where
  "wf_world w = list_all (\<lambda>k. k < length (frames w)) (htmlCallbacks (collector (scraper w)))"

text \<open>A record that the extraction callback built, with a title that is not empty.\<close>

definition produced :: "Article \<Rightarrow> bool" where
  "produced a = (Title a \<noteq> [] \<and> (\<exists>t e. a = new_article t e))"

text \<open>
  Inputs for the examples: the two URLs of the repository's tests, a document with one
  block that has a title and neither link nor summary, and an environment that serves
  this document for every URL.
\<close>

definition flip_url :: gostring where
  "flip_url = str ''https://flipboard.com/test''"

definition invalid_url :: gostring where
  "invalid_url = str ''http://invalid-url.com''"

definition item :: HTMLElement where
  "item = \<lparr>ChildText = (\<lambda>sel. if sel = str ''h3'' then str '' Go  news '' else []),
           ChildAttr = (\<lambda>sel attr. [])\<rparr>"

definition static_env :: env where
  "static_env = \<lparr>respond = (\<lambda>u. Page [item]), now = (\<lambda>k. k)\<rparr>"










text \<open>What a step does to the bookkeeping of the group.\<close>

definition moves :: "group \<Rightarrow> group \<Rightarrow> bool" where
  "moves g g' =
     (g' = g
      \<or> (\<exists>w' i s. i < length (tasks g) \<and> tasks g ! i \<noteq> Finished \<and> s \<noteq> Finished \<and> s \<noteq> Pending
            \<and> (tasks g ! i = Pending \<longrightarrow> i = next_pending g)
            \<and> g' = g\<lparr>wld := w', tasks := (tasks g)[i := s]\<rparr>)
      \<or> (\<exists>w'. g' = g\<lparr>wld := w'\<rparr>)
      \<or> (\<exists>e. gctx g = None \<and> g' = g\<lparr>gctx := Some e\<rparr>)
      \<or> (\<exists>w' i e. i < length (tasks g) \<and> active (tasks g ! i)
            \<and> (wait_failure e \<or> scrape_failure (urls g ! i) e)
            \<and> g' = task_fail i e (g\<lparr>wld := w'\<rparr>))
      \<or> (\<exists>w' i arts. i < length (tasks g) \<and> active (tasks g ! i)
            \<and> g' = task_ok i arts (g\<lparr>wld := w'\<rparr>)))"


text \<open>
  What holds of the group in every state of an execution: every task has a URL; the
  slice holds what the returned tasks appended, in their order; the group's error is
  that of the first task that failed, and once there is one the context is done; a
  task is finished when it has returned, and it returns once; a task that failed
  appended nothing and its error is one of the two the closure builds.
\<close>

definition outcome_ok :: "gostring list \<Rightarrow> nat \<times> Article list \<times> error option \<Rightarrow> bool" where
  "outcome_ok us r =
     (case snd (snd r) of
        None \<Rightarrow> True
      | Some e \<Rightarrow> fst (snd r) = [] \<and> (wait_failure e \<or> scrape_failure (us ! fst r) e))"

definition group_inv :: "group \<Rightarrow> bool" where
  "group_inv g =
     (length (tasks g) = length (urls g)
      \<and> articles g = concat (map (fst \<circ> snd) (returned g))
      \<and> gerr g = map_option snd (first_failure (returned g))
      \<and> (gerr g = None \<or> gctx g \<noteq> None)
      \<and> distinct (map fst (returned g))
      \<and> set (map fst (returned g)) = {i. i < length (tasks g) \<and> tasks g ! i = Finished}
      \<and> list_all (outcome_ok (urls g)) (returned g))"

text \<open>
  What the completion of the tasks relies on: \<^verbatim>\<open>g.Go\<close> starts the tasks in the
  order of the URLs, and a task in its select has a frame whose goroutine has run or
  is still to run.
\<close>

definition pending_suffix :: "group \<Rightarrow> bool" where
  "pending_suffix g =
     (\<forall>i j. i \<le> j \<and> j < length (tasks g) \<and> tasks g ! i = Pending \<longrightarrow> tasks g ! j = Pending)"

definition scraping_ready :: "group \<Rightarrow> bool" where
  "scraping_ready g =
     (\<forall>i fid. i < length (tasks g) \<and> tasks g ! i = Scraping fid \<longrightarrow>
        fid < length (frames (wld g))
        \<and> (done_closed (frames (wld g) ! fid) \<or> map_of (goroutines (wld g)) fid \<noteq> None))"

text \<open>
  Frames are never removed, a channel \<^verbatim>\<open>done\<close> that is closed stays closed, and a
  goroutine that is to run stays so until it has closed its channel.
\<close>

definition world_grows :: "world \<Rightarrow> world \<Rightarrow> bool" where
  "world_grows w w' =
     (length (frames w) \<le> length (frames w')
      \<and> (\<forall>k. k < length (frames w) \<and> done_closed (frames w ! k) \<longrightarrow> done_closed (frames w' ! k))
      \<and> (\<forall>k. k < length (frames w) \<and> map_of (goroutines w) k \<noteq> None
             \<longrightarrow> map_of (goroutines w') k \<noteq> None \<or> done_closed (frames w' ! k)))"


text \<open>
  The frames made since the group started (those from index \<open>n0\<close> on) hold records
  built by the extraction callback, the tasks in their select own such frames, and so
  does the slice hold such records.
\<close>

definition titles_inv :: "nat \<Rightarrow> group \<Rightarrow> bool" where
  "titles_inv n0 g =
     ((\<forall>k. n0 \<le> k \<and> k < length (frames (wld g)) \<longrightarrow> list_all produced (f_articles (frames (wld g) ! k)))
      \<and> (\<forall>i fid. i < length (tasks g) \<and> tasks g ! i = Scraping fid \<longrightarrow> n0 \<le> fid)
      \<and> list_all produced (articles g))"

text \<open>
  A step of the world keeps the frames that hold such records so, and a frame it adds
  is empty.
\<close>

definition produced_kept :: "world \<Rightarrow> world \<Rightarrow> bool" where
  "produced_kept w w' =
     (\<forall>k. k < length (frames w')
           \<and> (k < length (frames w) \<longrightarrow> list_all produced (f_articles (frames w ! k)))
        \<longrightarrow> list_all produced (f_articles (frames w' ! k)))"


section \<open>Text normalisation: proofs\<close>

lemma rtrim_append:
  "rev (dropWhile P (rev (a @ b))) =
     (if \<forall>x\<in>set b. P x then rev (dropWhile P (rev a)) else a @ rev (dropWhile P (rev b)))"
  by (simp add: dropWhile_append)

lemma rtrim_Cons_keep:
  "\<not> (\<forall>x\<in>set xs. P x) \<Longrightarrow> rev (dropWhile P (rev (a # xs))) = a # rev (dropWhile P (rev xs))"
  by (auto simp: dropWhile_append)

lemma rtrim_id: "xs \<noteq> [] \<Longrightarrow> \<not> P (last xs) \<Longrightarrow> rev (dropWhile P (rev xs)) = xs"
  by (cases xs rule: rev_cases) auto

lemma rtrim_nil_iff: "rev (dropWhile P (rev xs)) = [] \<longleftrightarrow> (\<forall>x\<in>set xs. P x)"
  by (simp add: dropWhile_eq_Nil_conv)

lemma FieldsFrom_words:
  "\<forall>r\<in>set cur. \<not> IsSpace r \<Longrightarrow> \<forall>w\<in>set (FieldsFrom cur s). w \<noteq> [] \<and> (\<forall>r\<in>set w. \<not> IsSpace r)"
proof (induction s arbitrary: cur)
  case Nil
  then show ?case by simp
next
  case (Cons a s)
  have e: "\<forall>r\<in>set ([]::gostring). \<not> IsSpace r" by simp
  show ?case
  proof (cases "IsSpace a")
    case True
    with Cons.IH[OF e] Cons.prems show ?thesis by simp
  next
    case False
    with Cons.prems have "\<forall>r\<in>set (cur @ [a]). \<not> IsSpace r" by simp
    from Cons.IH[OF this] False show ?thesis by simp
  qed
qed

lemma FieldsFrom_dropWhile: "FieldsFrom [] (dropWhile IsSpace s) = FieldsFrom [] s"
  by (induction s) auto

lemma FieldsFrom_open_nonempty: "cur \<noteq> [] \<Longrightarrow> FieldsFrom cur s \<noteq> []"
  by (induction s arbitrary: cur) auto

lemma Join_words_ends:
  "ws \<noteq> [] \<Longrightarrow> \<forall>w\<in>set ws. w \<noteq> [] \<and> (\<forall>r\<in>set w. \<not> IsSpace r) \<Longrightarrow>
   Join ws sep \<noteq> [] \<and> \<not> IsSpace (hd (Join ws sep)) \<and> \<not> IsSpace (last (Join ws sep))"
proof (induction ws sep rule: Join.induct)
  case (1 sep)
  then show ?case by simp
next
  case (2 x sep)
  then have "x \<noteq> []" and "\<forall>r\<in>set x. \<not> IsSpace r" by simp_all
  then show ?case by simp
next
  case (3 x y ys sep)
  then have x: "x \<noteq> []" and xs: "\<forall>r\<in>set x. \<not> IsSpace r" by simp_all
  from 3 have J: "Join (y # ys) sep \<noteq> []" and L: "\<not> IsSpace (last (Join (y # ys) sep))" by simp_all
  from x xs have "\<not> IsSpace (hd x)" by simp
  with x J L show ?case by simp
qed

lemma TrimSpace_Join_words:
  assumes "\<forall>w\<in>set ws. w \<noteq> [] \<and> (\<forall>r\<in>set w. \<not> IsSpace r)"
  shows "TrimSpace (Join ws sep) = Join ws sep"
proof (cases "ws = []")
  case True
  then show ?thesis by (simp add: TrimSpace_def)
next
  case False
  from Join_words_ends[OF False assms, of sep]
  have ne: "Join ws sep \<noteq> []" and h: "\<not> IsSpace (hd (Join ws sep))" and l: "\<not> IsSpace (last (Join ws sep))"
    by auto
  from ne h have "dropWhile IsSpace (Join ws sep) = Join ws sep"
    by (cases "Join ws sep") auto
  with ne l show ?thesis by (simp add: TrimSpace_def rtrim_id)
qed

lemma trim_ends_space_Cons: "IsSpace x \<Longrightarrow> trim_ends (x # xs) = trim_ends xs"
  by (simp add: trim_ends_def)

lemma trim_ends_nonspace_Cons:
  "\<not> IsSpace x \<Longrightarrow> trim_ends (x # xs) = rev (dropWhile IsSpace (rev (x # xs)))"
  by (simp add: trim_ends_def)

lemma trim_ends_nil_all: "trim_ends xs = [] \<Longrightarrow> \<forall>x\<in>set xs. IsSpace x"
proof -
  assume "trim_ends xs = []"
  then have "dropWhile IsSpace (rev (dropWhile IsSpace xs)) = []" by (simp add: trim_ends_def)
  then have "\<forall>x\<in>set (dropWhile IsSpace xs). IsSpace x" by (simp only: dropWhile_eq_Nil_conv set_rev)
  then have "dropWhile IsSpace xs = []" by (metis hd_dropWhile hd_in_set)
  then show ?thesis by (simp only: dropWhile_eq_Nil_conv)
qed

lemma collapse_runs_Fields:
  "\<forall>r\<in>set cur. \<not> IsSpace r \<Longrightarrow>
   (if cur = [] then trim_ends (collapse_runs s)
    else rev (dropWhile IsSpace (rev (cur @ collapse_runs s)))) = Join (FieldsFrom cur s) [0x20]"
proof (induction s arbitrary: cur rule: collapse_runs.induct)
  case 1
  show ?case
  proof (cases "cur = []")
    case True
    then show ?thesis by (simp add: trim_ends_def)
  next
    case False
    with "1.prems" have "\<not> IsSpace (last cur)" by simp
    with False show ?thesis by (simp add: rtrim_id)
  qed
next
  case (2 r rs)
  show ?case
  proof (cases "IsSpace r")
    case False
    have cur': "\<forall>x\<in>set (cur @ [r]). \<not> IsSpace x" using False "2.prems" by simp
    have IH: "rev (dropWhile IsSpace (rev ((cur @ [r]) @ collapse_runs rs))) = Join (FieldsFrom (cur @ [r]) rs) [0x20]"
      using "2.IH"(2)[OF False cur'] by simp
    have c: "collapse_runs (r # rs) = r # collapse_runs rs" using False by simp
    have f: "FieldsFrom cur (r # rs) = FieldsFrom (cur @ [r]) rs" using False by simp
    show ?thesis
    proof (cases "cur = []")
      case True
      with IH show ?thesis unfolding c f by (simp add: trim_ends_nonspace_Cons False)
    next
      case False
      with IH show ?thesis unfolding c f by simp
    qed
  next
    case True
    let ?rs = "dropWhile IsSpace rs"
    let ?C = "collapse_runs ?rs"
    let ?F = "FieldsFrom [] ?rs"
    have IH: "trim_ends ?C = Join ?F [0x20]"
      using "2.IH"(1)[OF True, of "[]"] by simp
    have F: "FieldsFrom [] rs = ?F" by (simp only: FieldsFrom_dropWhile)
    have sp: "IsSpace 0x20" by (simp add: IsSpace_def)
    have c: "collapse_runs (r # rs) = 0x20 # ?C" using True by simp
    show ?thesis
    proof (cases "cur = []")
      case c0: True
      have "FieldsFrom cur (r # rs) = ?F" using c0 True F by simp
      moreover have "trim_ends (0x20 # ?C) = trim_ends ?C" using sp by (rule trim_ends_space_Cons)
      ultimately show ?thesis using c0 IH unfolding c by simp
    next
      case c0: False
      have lastcur: "\<not> IsSpace (last cur)" using c0 "2.prems" by simp
      have f: "FieldsFrom cur (r # rs) = cur # ?F" using c0 True F by simp
      show ?thesis
      proof (cases "?F = []")
        case Fn: True
        then have "trim_ends ?C = []" using IH by simp
        then have allsp: "\<forall>x\<in>set ?C. IsSpace x" by (rule trim_ends_nil_all)
        then have all2: "\<forall>x\<in>set (0x20 # ?C). IsSpace x" using sp by simp
        have "rev (dropWhile IsSpace (rev (cur @ 0x20 # ?C))) = rev (dropWhile IsSpace (rev cur))"
          by (subst rtrim_append) (rule if_P[OF all2])
        also have "\<dots> = cur" using c0 lastcur by (rule rtrim_id)
        finally show ?thesis using c0 Fn unfolding c f by simp
      next
        case Fn: False
        then obtain y ys where Feq: "?F = y # ys" by (cases ?F) auto
        have words: "\<forall>w\<in>set ?F. w \<noteq> [] \<and> (\<forall>r\<in>set w. \<not> IsSpace r)"
          using FieldsFrom_words[of "[]" ?rs] by simp
        from Join_words_ends[OF Fn words, of "[0x20]"]
        have Jne: "Join ?F [0x20] \<noteq> []" by simp
        have rsne: "?rs \<noteq> []" using Fn by (cases ?rs) auto
        then obtain r' rs' where rs': "?rs = r' # rs'" by (cases ?rs) auto
        have "\<not> IsSpace r'" using rs' by (metis hd_dropWhile list.sel(1) rsne)
        then have Chd: "?C = r' # collapse_runs rs'" by (simp add: rs')
        have te: "trim_ends ?C = rev (dropWhile IsSpace (rev ?C))"
          unfolding Chd using \<open>\<not> IsSpace r'\<close> by (rule trim_ends_nonspace_Cons)
        have "rev (dropWhile IsSpace (rev ?C)) \<noteq> []" using te IH Jne by simp
        then have nsp: "\<not> (\<forall>x\<in>set ?C. IsSpace x)" using rtrim_nil_iff[of IsSpace ?C] by blast
        then have nsp2: "\<not> (\<forall>x\<in>set (0x20 # ?C). IsSpace x)" by simp
        have "rev (dropWhile IsSpace (rev (cur @ 0x20 # ?C))) = cur @ rev (dropWhile IsSpace (rev (0x20 # ?C)))"
          by (subst rtrim_append) (rule if_not_P[OF nsp2])
        also have "rev (dropWhile IsSpace (rev (0x20 # ?C))) = 0x20 # rev (dropWhile IsSpace (rev ?C))"
          using nsp by (rule rtrim_Cons_keep)
        also have "cur @ 0x20 # rev (dropWhile IsSpace (rev ?C)) = cur @ 0x20 # Join ?F [0x20]" using te IH by simp
        also have "\<dots> = Join (cur # ?F) [0x20]" by (simp add: Feq)
        finally show ?thesis using c0 unfolding c f by simp
      qed
    qed
  qed
qed

lemma cleanText_normalize: "cleanText s = normalize_spec s"
proof -
  have "\<forall>w\<in>set (Fields s). w \<noteq> [] \<and> (\<forall>r\<in>set w. \<not> IsSpace r)"
    using FieldsFrom_words[of "[]" s] by (simp add: Fields_def)
  then have "cleanText s = Join (Fields s) [0x20]"
    by (simp add: cleanText_def TrimSpace_Join_words str_def)
  also have "\<dots> = normalize_spec s"
    using collapse_runs_Fields[of "[]" s] by (simp add: normalize_spec_def Fields_def)
  finally show ?thesis .
qed


text \<open>
  Claim C7. \<open>cleanText\<close> is the normalisation of the specification: every run of
  white space (tabs, newlines and carriage returns included) collapses into a single
  space and leading and trailing white space is trimmed; and on the four inputs of the
  specification it gives \<^verbatim>\<open>"Hello World"\<close>, \<^verbatim>\<open>"Test String"\<close>,
  \<^verbatim>\<open>""\<close> and \<^verbatim>\<open>"Normal text"\<close>.
\<close>

theorem C7_cleanText_normalizes:
  "cleanText s = normalize_spec s
   \<and> cleanText (str ''  Hello   World  '') = str ''Hello World''
   \<and> cleanText (0x09 # str ''Test'' @ 0x0A # str ''String'' @ [0x0D, 0x0A]) = str ''Test String''
   \<and> cleanText (str '''') = str ''''
   \<and> cleanText (str ''Normal text'') = str ''Normal text''"
proof -
  have "cleanText (str ''  Hello   World  '') = str ''Hello World''"
    by (simp add: cleanText_def TrimSpace_def Fields_def str_def IsSpace_def)
  moreover have "cleanText (0x09 # str ''Test'' @ 0x0A # str ''String'' @ [0x0D, 0x0A]) = str ''Test String''"
    by (simp add: cleanText_def TrimSpace_def Fields_def str_def IsSpace_def)
  moreover have "cleanText (str '''') = str ''''"
    by (simp add: cleanText_def TrimSpace_def Fields_def str_def)
  moreover have "cleanText (str ''Normal text'') = str ''Normal text''"
    by (simp add: cleanText_def TrimSpace_def Fields_def str_def IsSpace_def)
  ultimately show ?thesis using cleanText_normalize by simp
qed


section \<open>The callbacks, Visit and scrapeURL: proofs\<close>

lemma call_html_frame_len [simp]: "length (frames (call_html env fid els w)) = length (frames w)"
  by (induction els arbitrary: w) simp_all

lemma call_html_other [simp]:
  "scraper (call_html env fid els w) = scraper w"
  "goroutines (call_html env fid els w) = goroutines w"
  "requests (call_html env fid els w) = requests w"
  by (induction els arbitrary: w) simp_all

lemma onHTML_fields [simp]:
  "scrapeErr (onHTML t e f) = scrapeErr f"
  "done_closed (onHTML t e f) = done_closed f"
  by (simp_all add: onHTML_def Let_def)

lemma onHTML_content:
  "map content (f_articles (onHTML t e f)) = map content (f_articles f) @ extracted [e]"
  by (simp add: onHTML_def Let_def extracted_def content_def new_article_def)

lemma onHTML_titles:
  "list_all produced (f_articles f) \<Longrightarrow> list_all produced (f_articles (onHTML t e f))"
  by (auto simp: onHTML_def Let_def produced_def)

lemma extract_append: "extracted (xs @ ys) = extracted xs @ extracted ys"
  by (simp add: extracted_def)

lemma extract_Cons: "extracted (e # es) = extracted [e] @ extracted es"
  using extract_append[of "[e]" es] by simp

lemma call_html_frame_other:
  "k \<noteq> fid \<Longrightarrow> frames (call_html env fid els w) ! k = frames w ! k"
  by (induction els arbitrary: w) simp_all

lemma frame_update_cases:
  assumes "k = fid \<and> fid < length fs \<Longrightarrow> P (g (fs ! fid))"
      and "\<not> (k = fid \<and> fid < length fs) \<Longrightarrow> P (fs ! k)"
  shows "P (fs[fid := g (fs ! fid)] ! k)"
proof (cases "k = fid \<and> fid < length fs")
  case True
  then show ?thesis using assms(1) by simp
next
  case False
  then have "fs[fid := g (fs ! fid)] ! k = fs ! k"
    by (cases "fid < length fs") (simp_all add: list_update_beyond)
  then show ?thesis using assms(2)[OF False] by simp
qed

lemma call_html_frame_err:
  "scrapeErr (frames (call_html env fid els w) ! k) = scrapeErr (frames w ! k)
   \<and> done_closed (frames (call_html env fid els w) ! k) = done_closed (frames w ! k)"
proof (induction els arbitrary: w)
  case Nil
  then show ?case by simp
next
  case (Cons e es)
  have "scrapeErr ((frames w)[fid := onHTML (now env (readings w)) e (frames w ! fid)] ! k) = scrapeErr (frames w ! k)"
    by (rule frame_update_cases) simp_all
  moreover have "done_closed ((frames w)[fid := onHTML (now env (readings w)) e (frames w ! fid)] ! k) = done_closed (frames w ! k)"
    by (rule frame_update_cases) simp_all
  ultimately show ?case using Cons.IH by simp
qed

lemma call_html_frame_content:
  "fid < length (frames w) \<Longrightarrow>
   map content (f_articles (frames (call_html env fid els w) ! fid))
     = map content (f_articles (frames w ! fid)) @ extracted els"
proof (induction els arbitrary: w)
  case Nil
  then show ?case by (simp add: extracted_def)
next
  case (Cons e es)
  let ?w = "w\<lparr>frames := (frames w)[fid := onHTML (now env (readings w)) e (frames w ! fid)],
          readings := Suc (readings w)\<rparr>"
  have "fid < length (frames ?w)" using Cons.prems by simp
  from Cons.IH[OF this] Cons.prems show ?case
    by (simp add: onHTML_content extract_Cons[of e es])
qed

lemma call_html_frame_titles:
  "list_all produced (f_articles (frames w ! k)) \<Longrightarrow>
   list_all produced (f_articles (frames (call_html env fid els w) ! k))"
proof (induction els arbitrary: w)
  case Nil
  then show ?case by simp
next
  case (Cons e es)
  have "list_all produced
          (f_articles ((frames w)[fid := onHTML (now env (readings w)) e (frames w ! fid)] ! k))"
  proof (rule frame_update_cases)
    assume "k = fid \<and> fid < length (frames w)"
    then show "list_all produced (f_articles (onHTML (now env (readings w)) e (frames w ! fid)))"
      using Cons.prems by (simp add: onHTML_titles)
  next
    show "list_all produced (f_articles (frames w ! k))" by (rule Cons.prems)
  qed
  then show ?case using Cons.IH by simp
qed

lemma fold_call_html_len [simp]:
  "length (frames (fold (\<lambda>fid. call_html env fid els) cbs w)) = length (frames w)"
  by (induction cbs arbitrary: w) simp_all

lemma fold_call_html_other [simp]:
  "scraper (fold (\<lambda>fid. call_html env fid els) cbs w) = scraper w"
  "goroutines (fold (\<lambda>fid. call_html env fid els) cbs w) = goroutines w"
  "requests (fold (\<lambda>fid. call_html env fid els) cbs w) = requests w"
  by (induction cbs arbitrary: w) simp_all

lemma fold_call_html_err:
  "scrapeErr (frames (fold (\<lambda>fid. call_html env fid els) cbs w) ! k) = scrapeErr (frames w ! k)
   \<and> done_closed (frames (fold (\<lambda>fid. call_html env fid els) cbs w) ! k) = done_closed (frames w ! k)"
  by (induction cbs arbitrary: w) (simp_all add: call_html_frame_err)

lemma fold_call_html_titles:
  "list_all produced (f_articles (frames w ! k)) \<Longrightarrow>
   list_all produced (f_articles (frames (fold (\<lambda>fid. call_html env fid els) cbs w) ! k))"
  by (induction cbs arbitrary: w) (simp_all add: call_html_frame_titles)

lemma fold_call_html_untouched:
  "k \<notin> set cbs \<Longrightarrow> frames (fold (\<lambda>fid. call_html env fid els) cbs w) ! k = frames w ! k"
  by (induction cbs arbitrary: w) (simp_all add: call_html_frame_other)

lemma handleOnHTML_simps [simp]:
  "length (frames (handleOnHTML env els w)) = length (frames w)"
  "scraper (handleOnHTML env els w) = scraper w"
  "goroutines (handleOnHTML env els w) = goroutines w"
  "requests (handleOnHTML env els w) = requests w"
  "scrapeErr (frames (handleOnHTML env els w) ! k) = scrapeErr (frames w ! k)"
  "done_closed (frames (handleOnHTML env els w) ! k) = done_closed (frames w ! k)"
  by (simp_all add: handleOnHTML_def fold_call_html_err)

lemma handleOnHTML_titles:
  "list_all produced (f_articles (frames w ! k)) \<Longrightarrow>
   list_all produced (f_articles (frames (handleOnHTML env els w) ! k))"
  by (simp add: handleOnHTML_def fold_call_html_titles)

lemma handleOnHTML_last:
  assumes "htmlCallbacks (collector (scraper w)) = cbs @ [k]" "k \<notin> set cbs" "k < length (frames w)"
  shows "map content (f_articles (frames (handleOnHTML env els w) ! k))
           = map content (f_articles (frames w ! k)) @ extracted els"
proof -
  let ?w' = "fold (\<lambda>fid. call_html env fid els) cbs w"
  have "handleOnHTML env els w = call_html env k els ?w'"
    using assms(1) by (simp add: handleOnHTML_def)
  moreover have "k < length (frames ?w')" using assms(3) by simp
  moreover have "frames ?w' ! k = frames w ! k" using assms(2) by (rule fold_call_html_untouched)
  ultimately show ?thesis by (simp add: call_html_frame_content)
qed

lemma fold_onError_simps [simp]:
  "length (frames (fold (\<lambda>fid w'. w'\<lparr>frames := (frames w')[fid := onError status err (frames w' ! fid)]\<rparr>) cbs w)) = length (frames w)"
  "scraper (fold (\<lambda>fid w'. w'\<lparr>frames := (frames w')[fid := onError status err (frames w' ! fid)]\<rparr>) cbs w) = scraper w"
  "goroutines (fold (\<lambda>fid w'. w'\<lparr>frames := (frames w')[fid := onError status err (frames w' ! fid)]\<rparr>) cbs w) = goroutines w"
  "requests (fold (\<lambda>fid w'. w'\<lparr>frames := (frames w')[fid := onError status err (frames w' ! fid)]\<rparr>) cbs w) = requests w"
  by (induction cbs arbitrary: w) simp_all

lemma fold_onError_frame:
  "f_articles (frames (fold (\<lambda>fid w'. w'\<lparr>frames := (frames w')[fid := onError status err (frames w' ! fid)]\<rparr>) cbs w) ! k) = f_articles (frames w ! k)
   \<and> done_closed (frames (fold (\<lambda>fid w'. w'\<lparr>frames := (frames w')[fid := onError status err (frames w' ! fid)]\<rparr>) cbs w) ! k) = done_closed (frames w ! k)"
proof (induction cbs arbitrary: w)
  case Nil
  then show ?case by simp
next
  case (Cons c cbs)
  have "f_articles ((frames w)[c := onError status err (frames w ! c)] ! k) = f_articles (frames w ! k)"
    by (rule frame_update_cases) (simp_all add: onError_def)
  moreover have "done_closed ((frames w)[c := onError status err (frames w ! c)] ! k) = done_closed (frames w ! k)"
    by (rule frame_update_cases) (simp_all add: onError_def)
  ultimately show ?case using Cons.IH by simp
qed

lemma handleOnError_simps [simp]:
  "length (frames (handleOnError status err w)) = length (frames w)"
  "scraper (handleOnError status err w) = scraper w"
  "goroutines (handleOnError status err w) = goroutines w"
  "requests (handleOnError status err w) = requests w"
  "f_articles (frames (handleOnError status err w) ! k) = f_articles (frames w ! k)"
  "done_closed (frames (handleOnError status err w) ! k) = done_closed (frames w ! k)"
  by (simp_all add: handleOnError_def fold_onError_frame)

lemma Visit_len [simp]: "length (frames (snd (Visit env url w))) = length (frames w)"
  by (simp add: Visit_def Let_def split: response.splits)

lemma Visit_goroutines [simp]: "goroutines (snd (Visit env url w)) = goroutines w"
  by (simp add: Visit_def Let_def split: response.splits)

lemma Visit_flag [simp]:
  "AllowURLRevisit (collector (scraper (snd (Visit env url w)))) = AllowURLRevisit (collector (scraper w))"
  by (simp add: Visit_def Let_def split: response.splits)

lemma Visit_limiter [simp]:
  "limiter (scraper (snd (Visit env url w))) = limiter (scraper w)"
  "config (scraper (snd (Visit env url w))) = config (scraper w)"
  "htmlCallbacks (collector (scraper (snd (Visit env url w)))) = htmlCallbacks (collector (scraper w))"
  "errorCallbacks (collector (scraper (snd (Visit env url w)))) = errorCallbacks (collector (scraper w))"
  by (simp_all add: Visit_def Let_def split: response.splits)

lemma Visit_done [simp]:
  "done_closed (frames (snd (Visit env url w)) ! k) = done_closed (frames w ! k)"
  by (simp add: Visit_def Let_def split: response.splits)

lemma Visit_titles:
  "list_all produced (f_articles (frames w ! k)) \<Longrightarrow>
   list_all produced (f_articles (frames (snd (Visit env url w)) ! k))"
  by (simp add: Visit_def Let_def handleOnHTML_titles split: response.splits)

lemma Visit_None_err:
  "fst (Visit env url w) = None \<Longrightarrow> scrapeErr (frames (snd (Visit env url w)) ! k) = scrapeErr (frames w ! k)"
  by (simp add: Visit_def Let_def split: response.splits if_splits)

lemma Visit_Page:
  "respond env url = Page els \<Longrightarrow> AllowURLRevisit (collector (scraper w)) \<or> url \<notin> set (visited (collector (scraper w))) \<Longrightarrow>
   Visit env url w = (None, handleOnHTML env els
       (w\<lparr>scraper := (scraper w)\<lparr>collector := (collector (scraper w))
              \<lparr>visited := (if AllowURLRevisit (collector (scraper w)) then visited (collector (scraper w))
                            else visited (collector (scraper w)) @ [url])\<rparr>\<rparr>,
           requests := requests w @ [url]\<rparr>))"
  by (auto simp: Visit_def Let_def)


lemma scrape_begin_invalid:
  "\<not> HasPrefix url (str ''https://flipboard.com/'') \<Longrightarrow>
   scrape_begin url w = (Inl (ErrorString (str ''invalid Flipboard URL: '' @ url)), w)"
  by (simp add: scrape_begin_def)

lemma scrape_begin_valid:
  "HasPrefix url (str ''https://flipboard.com/'') \<Longrightarrow>
   scrape_begin url w = (Inr (length (frames w)), registered url w)"
  by (simp add: scrape_begin_def)

lemma registered_simps [simp]:
  "frames (registered url w) = frames w @ [\<lparr>f_articles = [], scrapeErr = None, done_closed = False\<rparr>]"
  "goroutines (registered url w) = goroutines w @ [(length (frames w), url)]"
  "requests (registered url w) = requests w"
  "readings (registered url w) = readings w"
  "limiter (scraper (registered url w)) = limiter (scraper w)"
  "config (scraper (registered url w)) = config (scraper w)"
  "AllowURLRevisit (collector (scraper (registered url w))) = AllowURLRevisit (collector (scraper w))"
  "visited (collector (scraper (registered url w))) = visited (collector (scraper w))"
  "htmlCallbacks (collector (scraper (registered url w))) = htmlCallbacks (collector (scraper w)) @ [length (frames w)]"
  "errorCallbacks (collector (scraper (registered url w))) = errorCallbacks (collector (scraper w)) @ [length (frames w)]"
  by (simp_all add: registered_def)

lemma run_goroutine_simps [simp]:
  "length (frames (run_goroutine env fid url w)) = length (frames w)"
  "AllowURLRevisit (collector (scraper (run_goroutine env fid url w))) = AllowURLRevisit (collector (scraper w))"
  "limiter (scraper (run_goroutine env fid url w)) = limiter (scraper w)"
  "config (scraper (run_goroutine env fid url w)) = config (scraper w)"
  "htmlCallbacks (collector (scraper (run_goroutine env fid url w))) = htmlCallbacks (collector (scraper w))"
  by (simp_all add: run_goroutine_def Let_def split_beta split: option.splits)

lemma run_goroutine_frame:
  "fid < length (frames w) \<Longrightarrow>
   frames (run_goroutine env fid url w) ! fid =
     (case fst (Visit env url w) of
        None \<Rightarrow> (frames (snd (Visit env url w)) ! fid)\<lparr>done_closed := True\<rparr>
      | Some e \<Rightarrow> (frames (snd (Visit env url w)) ! fid)
                    \<lparr>scrapeErr := Some (Errorf_w (str ''failed to start scraping: '') e), done_closed := True\<rparr>)"
  by (simp add: run_goroutine_def Let_def split_beta split: option.splits)

lemma run_goroutine_titles:
  "list_all produced (f_articles (frames w ! k)) \<Longrightarrow>
   list_all produced (f_articles (frames (run_goroutine env fid url w) ! k))"
proof -
  assume a: "list_all produced (f_articles (frames w ! k))"
  let ?w1 = "snd (Visit env url w)"
  have v: "list_all produced (f_articles (frames ?w1 ! k))"
    using a by (rule Visit_titles)
  show ?thesis
  proof (cases "fst (Visit env url w)")
    case None
    have "list_all produced (f_articles ((frames ?w1)[fid := (frames ?w1 ! fid)\<lparr>done_closed := True\<rparr>] ! k))"
      by (rule frame_update_cases) (use v in simp_all)
    then show ?thesis using None by (simp add: run_goroutine_def Let_def split_beta)
  next
    case (Some e)
    let ?fs = "(frames ?w1)[fid := (frames ?w1 ! fid)\<lparr>scrapeErr := Some (Errorf_w (str ''failed to start scraping: '') e)\<rparr>]"
    have 1: "list_all produced (f_articles (?fs ! k))"
      by (rule frame_update_cases) (use v in simp_all)
    have "list_all produced (f_articles (?fs[fid := (?fs ! fid)\<lparr>done_closed := True\<rparr>] ! k))"
      by (rule frame_update_cases) (use 1 in simp_all)
    then show ?thesis using Some by (simp add: run_goroutine_def Let_def split_beta)
  qed
qed

lemma scrapeURL_invalid:
  "\<not> HasPrefix url (str ''https://flipboard.com/'') \<Longrightarrow>
   scrapeURL env c t url w = (([], Some (ErrorString (str ''invalid Flipboard URL: '' @ url))), w)"
  by (simp add: scrapeURL_def scrape_begin_invalid)

lemma scrapeURL_cancelled:
  "HasPrefix url (str ''https://flipboard.com/'') \<Longrightarrow> select_case c t = TakeCtx e gone \<Longrightarrow>
   scrapeURL env c t url w =
     select_ctx e (if gone then run_goroutine env (length (frames w)) url (registered url w) else registered url w)"
  by (simp add: scrapeURL_def scrape_begin_valid)

lemma scrapeURL_live:
  "HasPrefix url (str ''https://flipboard.com/'') \<Longrightarrow> select_case c t = TakeDone \<Longrightarrow>
   scrapeURL env c t url w =
     select_done (length (frames w)) (run_goroutine env (length (frames w)) url (registered url w))"
  by (simp add: scrapeURL_def scrape_begin_valid)

lemma scrapeURL_live_result:
  assumes "HasPrefix url (str ''https://flipboard.com/'')" and "select_case c t = TakeDone"
  shows "fst (scrapeURL env c t url w) =
     (case fst (Visit env url (registered url w)) of
        Some e \<Rightarrow> ([], Some (Errorf_w (str ''failed to start scraping: '') e))
      | None \<Rightarrow> (f_articles (frames (snd (Visit env url (registered url w))) ! length (frames w)), None))"
proof -
  let ?k = "length (frames w)"
  let ?w1 = "registered url w"
  have k: "?k < length (frames ?w1)" by simp
  have e0: "scrapeErr (frames ?w1 ! ?k) = None" by simp
  show ?thesis
  proof (cases "fst (Visit env url ?w1)")
    case None
    then have "scrapeErr (frames (snd (Visit env url ?w1)) ! ?k) = None"
      using Visit_None_err[of env url ?w1 ?k] e0 by simp
    then show ?thesis using None assms k
      by (simp add: scrapeURL_live select_done_def run_goroutine_frame)
  next
    case (Some e)
    then show ?thesis using assms k
      by (simp add: scrapeURL_live select_done_def run_goroutine_frame)
  qed
qed

lemma prefix_flip: "HasPrefix flip_url (str ''https://flipboard.com/'')"
  by (simp add: HasPrefix_def flip_url_def str_def)


lemma select_ctx_simps [simp]:
  "fst (select_ctx e w) = ([], Some (Errorf_w (str ''scraping cancelled: '') e))"
  "AllowURLRevisit (collector (scraper (snd (select_ctx e w))))"
  by (simp_all add: select_ctx_def)

lemma select_done_snd [simp]: "snd (select_done fid w) = w"
  by (simp add: select_done_def split: option.splits)

lemma scrapeURL_flag_mono:
  "AllowURLRevisit (collector (scraper w)) \<Longrightarrow>
   AllowURLRevisit (collector (scraper (snd (scrapeURL env c t url w))))"
proof (cases "HasPrefix url (str ''https://flipboard.com/'')")
  case False
  assume "AllowURLRevisit (collector (scraper w))"
  then show ?thesis using False by (simp add: scrapeURL_invalid)
next
  case True
  assume a: "AllowURLRevisit (collector (scraper w))"
  show ?thesis
  proof (cases "select_case c t")
    case TakeDone
    then show ?thesis using True a by (simp add: scrapeURL_live)
  next
    case (TakeCtx e gone)
    then show ?thesis using True by (simp add: scrapeURL_cancelled)
  qed
qed

lemma cancel_msg_neq:
  "Errorf_w (str ''failed to start scraping: '') e' \<noteq> Errorf_w (str ''scraping cancelled: '') e"
  by (simp add: Errorf_w_def str_def)

lemma scrapeURL_error_no_records:
  "snd (fst (scrapeURL env c t url w)) \<noteq> None \<Longrightarrow> fst (fst (scrapeURL env c t url w)) = []"
proof (cases "HasPrefix url (str ''https://flipboard.com/'')")
  case False
  then show ?thesis by (simp add: scrapeURL_invalid)
next
  case True
  assume a: "snd (fst (scrapeURL env c t url w)) \<noteq> None"
  show ?thesis
  proof (cases "select_case c t")
    case TakeDone
    then show ?thesis using True a by (simp add: scrapeURL_live_result split: option.splits)
  next
    case (TakeCtx e gone)
    then show ?thesis using True by (simp add: scrapeURL_cancelled)
  qed
qed

lemma scrapeURL_records_produced:
  "list_all produced (fst (fst (scrapeURL env c t url w)))"
proof (cases "HasPrefix url (str ''https://flipboard.com/'')")
  case False
  then show ?thesis by (simp add: scrapeURL_invalid)
next
  case True
  show ?thesis
  proof (cases "select_case c t")
    case (TakeCtx e gone)
    then show ?thesis using True by (simp add: scrapeURL_cancelled)
  next
    case TakeDone
    have "list_all produced (f_articles (frames (registered url w) ! length (frames w)))" by simp
    then have "list_all produced (f_articles (frames (snd (Visit env url (registered url w))) ! length (frames w)))"
      by (rule Visit_titles)
    then show ?thesis using True TakeDone by (simp add: scrapeURL_live_result split: option.splits)
  qed
qed

lemma wf_fresh: "wf_world w \<Longrightarrow> length (frames w) \<notin> set (htmlCallbacks (collector (scraper w)))"
  by (auto simp: wf_world_def list_all_iff)

lemma scrapeURL_page:
  assumes p: "HasPrefix url (str ''https://flipboard.com/'')"
      and r: "respond env url = Page els"
      and v: "AllowURLRevisit (collector (scraper w)) \<or> url \<notin> set (visited (collector (scraper w)))"
      and wf: "wf_world w"
  shows "snd (fst (scrapeURL env Live t url w)) = None
       \<and> map content (fst (fst (scrapeURL env Live t url w))) = extracted els"
proof -
  let ?k = "length (frames w)"
  let ?w1 = "registered url w"
  let ?w2 = "?w1\<lparr>scraper := (scraper ?w1)\<lparr>collector := (collector (scraper ?w1))
              \<lparr>visited := (if AllowURLRevisit (collector (scraper ?w1)) then visited (collector (scraper ?w1))
                            else visited (collector (scraper ?w1)) @ [url])\<rparr>\<rparr>,
           requests := requests ?w1 @ [url]\<rparr>"
  have v1: "AllowURLRevisit (collector (scraper ?w1)) \<or> url \<notin> set (visited (collector (scraper ?w1)))"
    using v by simp
  have V: "Visit env url ?w1 = (None, handleOnHTML env els ?w2)"
    using Visit_Page[OF r v1] .
  have cb: "htmlCallbacks (collector (scraper ?w2)) = htmlCallbacks (collector (scraper w)) @ [?k]" by simp
  have fr: "?k \<notin> set (htmlCallbacks (collector (scraper w)))" using wf by (rule wf_fresh)
  have len: "?k < length (frames ?w2)" by simp
  have "map content (f_articles (frames (handleOnHTML env els ?w2) ! ?k))
          = map content (f_articles (frames ?w2 ! ?k)) @ extracted els"
    using handleOnHTML_last[OF cb fr len] .
  then have "map content (f_articles (frames (handleOnHTML env els ?w2) ! ?k)) = extracted els" by simp
  then show ?thesis using V p by (simp add: scrapeURL_live_result)
qed


lemma new_world_wf: "wf_world (new_world cfg)"
  by (simp add: wf_world_def new_world_def NewMagazineScraper_def)

lemma item_extracted: "extracted [item] = [(str ''Go news'', [], [])]"
  by (simp add: extracted_def item_def cleanText_def TrimSpace_def Fields_def str_def IsSpace_def)

lemma static_page: "respond static_env u = Page [item]"
  by (simp add: static_env_def)

lemma run_goroutine_scraper [simp]:
  "scraper (run_goroutine env fid url w) = scraper (snd (Visit env url w))"
  by (simp add: run_goroutine_def Let_def split_beta split: option.splits)






section \<open>ScrapeURLs: proofs\<close>

lemma task_fail_simps [simp]:
  "tasks (task_fail i e g) = (tasks g)[i := Finished]"
  "returned (task_fail i e g) = returned g @ [(i, [], Some e)]"
  "articles (task_fail i e g) = articles g"
  "wld (task_fail i e g) = wld g"
  "urls (task_fail i e g) = urls g"
  "gerr (task_fail i e g) = (case gerr g of None \<Rightarrow> Some e | Some e0 \<Rightarrow> Some e0)"
  "gctx (task_fail i e g) = (case gerr g of
                  None \<Rightarrow> (case gctx g of None \<Rightarrow> Some Canceled | Some c \<Rightarrow> Some c)
                | Some e0 \<Rightarrow> gctx g)"
  by (simp_all add: task_fail_def)

lemma task_ok_simps [simp]:
  "tasks (task_ok i arts g) = (tasks g)[i := Finished]"
  "returned (task_ok i arts g) = returned g @ [(i, arts, None)]"
  "articles (task_ok i arts g) = articles g @ arts"
  "wld (task_ok i arts g) = wld g"
  "urls (task_ok i arts g) = urls g"
  "gerr (task_ok i arts g) = gerr g"
  "gctx (task_ok i arts g) = gctx g"
  by (simp_all add: task_ok_def)

lemma wait_failure_I [simp]: "wait_failure (Errorf_w (str ''rate limiter wait failed: '') c)"
  by (simp add: wait_failure_def Errorf_w_def)

lemma scrape_failure_I [simp]: "scrape_failure url (Errorf_w (str ''failed to scrape '' @ url @ str '': '') c)"
  by (simp add: scrape_failure_def Errorf_w_def)

lemma next_pending_Pending:
  "next_pending g < length (tasks g) \<Longrightarrow> tasks g ! next_pending g = Pending"
  unfolding next_pending_def
  using nth_length_takeWhile[of "\<lambda>s. s \<noteq> Pending" "tasks g"] by simp

lemma moves_Go: "moves g (step env Go g)"
proof -
  let ?k = "next_pending g"
  show ?thesis
  proof (cases "?k < length (tasks g) \<and> (ConcurrentRequests (config (scraper (wld g))) < 0 \<or> int (length (filter active (tasks g))) < ConcurrentRequests (config (scraper (wld g))))")
    case False
    then have "step env Go g = g" by (auto simp: Let_def)
    then show ?thesis by (simp add: moves_def)
  next
    case True
    then have s: "step env Go g = g\<lparr>tasks := (tasks g)[?k := Started]\<rparr>" by (auto simp: Let_def)
    have "tasks g ! ?k \<noteq> Finished" using True next_pending_Pending[of g] by simp
    then have "\<exists>w' i s. i < length (tasks g) \<and> tasks g ! i \<noteq> Finished \<and> s \<noteq> Finished \<and> s \<noteq> Pending
            \<and> (tasks g ! i = Pending \<longrightarrow> i = next_pending g)
            \<and> step env Go g = g\<lparr>wld := w', tasks := (tasks g)[i := s]\<rparr>"
      using True s by (intro exI[of _ "wld g"] exI[of _ ?k] exI[of _ Started]) simp
    then show ?thesis unfolding moves_def by blast
  qed
qed

lemma moves_fail:
  "i < length (tasks g) \<Longrightarrow> active (tasks g ! i) \<Longrightarrow> wait_failure e \<or> scrape_failure (urls g ! i) e \<Longrightarrow>
   moves g (task_fail i e (g\<lparr>wld := w'\<rparr>))"
  unfolding moves_def by blast

lemma moves_ok:
  "i < length (tasks g) \<Longrightarrow> active (tasks g ! i) \<Longrightarrow> moves g (task_ok i arts (g\<lparr>wld := w'\<rparr>))"
  unfolding moves_def by blast

lemma moves_status:
  "i < length (tasks g) \<Longrightarrow> tasks g ! i \<noteq> Finished \<Longrightarrow> tasks g ! i \<noteq> Pending \<Longrightarrow> s \<noteq> Finished \<Longrightarrow> s \<noteq> Pending \<Longrightarrow>
   moves g (g\<lparr>wld := w', tasks := (tasks g)[i := s]\<rparr>)"
  unfolding moves_def by blast

lemma moves_return:
  "i < length (tasks g) \<Longrightarrow> active (tasks g ! i) \<Longrightarrow>
   moves g (task_return i (urls g ! i) r (g\<lparr>wld := w'\<rparr>))"
  by (cases "snd r") (simp_all add: task_return_def moves_fail moves_ok)

lemma g_wld_id [simp]: "g\<lparr>wld := wld g\<rparr> = g"
  by simp

lemma moves_step: "moves g (step env ev g)"
proof (cases ev)
  case Go
  then show ?thesis using moves_Go by simp
next
  case (WaitEnter i)
  show ?thesis
  proof (cases "i < length (tasks g) \<and> tasks g ! i = Started")
    case False
    then show ?thesis using WaitEnter by (auto simp: moves_def)
  next
    case True
    show ?thesis
    proof (cases "gctx g")
      case None
      then show ?thesis using WaitEnter True moves_status[of i g Sleeping "limiter_reserve (wld g)"] by simp
    next
      case (Some e)
      then show ?thesis using WaitEnter True
          moves_fail[of i g "Errorf_w (str ''rate limiter wait failed: '') e" "wld g"] by simp
    qed
  qed
next
  case (WaitRefuse i)
  show ?thesis
  proof (cases "i < length (tasks g) \<and> tasks g ! i = Started \<and> gctx g = None")
    case False
    then show ?thesis using WaitRefuse by (auto simp: moves_def)
  next
    case True
    then show ?thesis using WaitRefuse
        moves_fail[of i g "Errorf_w (str ''rate limiter wait failed: '') (ErrorString (str ''rate: Wait(n=1) would exceed context deadline''))" "wld g"]
      by simp
  qed
next
  case (TimerFires i)
  show ?thesis
  proof (cases "i < length (tasks g) \<and> tasks g ! i = Sleeping")
    case False
    then show ?thesis using TimerFires by (auto simp: moves_def)
  next
    case True
    obtain r w1 where sb: "scrape_begin (urls g ! i) (wld g) = (r, w1)" by (cases "scrape_begin (urls g ! i) (wld g)")
    show ?thesis
    proof (cases r)
      case (Inl err)
      then show ?thesis using TimerFires True sb
          moves_return[of i g "([], Some err)" w1] by simp
    next
      case (Inr fid)
      then show ?thesis using TimerFires True sb
          moves_status[of i g "Scraping fid" w1] by simp
    qed
  qed
next
  case (WaitCancelled i)
  show ?thesis
  proof (cases "i < length (tasks g) \<and> tasks g ! i = Sleeping")
    case False
    then show ?thesis using WaitCancelled by (auto simp: moves_def)
  next
    case True
    show ?thesis
    proof (cases "gctx g")
      case None
      then show ?thesis using WaitCancelled True by (simp add: moves_def)
    next
      case (Some e)
      then show ?thesis using WaitCancelled True
          moves_fail[of i g "Errorf_w (str ''rate limiter wait failed: '') e" "limiter_cancel (wld g)"] by simp
    qed
  qed
next
  case (RunVisit fid)
  then show ?thesis by (auto simp: moves_def split: option.splits)
next
  case (SelectDone i)
  show ?thesis
  proof (cases "i < length (tasks g)")
    case False
    then show ?thesis using SelectDone by (simp add: moves_def)
  next
    case True
    show ?thesis
    proof (cases "tasks g ! i")
      case (Scraping fid)
      show ?thesis
      proof (cases "done_closed (frames (wld g) ! fid)")
        case False
        then show ?thesis using SelectDone True Scraping by (simp add: moves_def)
      next
        case d: True
        obtain r w1 where sd: "select_done fid (wld g) = (r, w1)" by (cases "select_done fid (wld g)")
        then show ?thesis using SelectDone True Scraping d moves_return[of i g r w1] by simp
      qed
    qed (use SelectDone True in \<open>simp_all add: moves_def\<close>)
  qed
next
  case (SelectCtx i)
  show ?thesis
  proof (cases "i < length (tasks g)")
    case False
    then show ?thesis using SelectCtx by (simp add: moves_def)
  next
    case True
    show ?thesis
    proof (cases "tasks g ! i")
      case (Scraping fid)
      show ?thesis
      proof (cases "gctx g")
        case None
        then show ?thesis using SelectCtx True Scraping by (simp add: moves_def)
      next
        case (Some e)
        obtain r w1 where sd: "select_ctx e (wld g) = (r, w1)" by (cases "select_ctx e (wld g)")
        then show ?thesis using SelectCtx True Scraping Some moves_return[of i g r w1] by simp
      qed
    qed (use SelectCtx True in \<open>simp_all add: moves_def\<close>)
  qed
next
  case (Cancel e)
  then show ?thesis by (auto simp: moves_def split: option.splits)
qed

lemma first_failure_append:
  "first_failure (xs @ [(i, a, eo)]) =
     (case first_failure xs of
        Some p \<Rightarrow> Some p
      | None \<Rightarrow> (case eo of Some e \<Rightarrow> Some (i, e) | None \<Rightarrow> None))"
  by (induction xs rule: first_failure.induct) (simp_all split: option.splits)

lemma finished_set_update:
  "i < length ts \<Longrightarrow> ts ! i \<noteq> Finished \<Longrightarrow> s \<noteq> Finished \<Longrightarrow>
   {j. j < length (ts[i := s]) \<and> ts[i := s] ! j = Finished} = {j. j < length ts \<and> ts ! j = Finished}"
  by (auto simp: nth_list_update)

lemma finished_set_insert:
  "i < length ts \<Longrightarrow>
   {j. j < length (ts[i := Finished]) \<and> ts[i := Finished] ! j = Finished}
     = insert i {j. j < length ts \<and> ts ! j = Finished}"
  by (auto simp: nth_list_update)

lemma active_not_Finished: "active s \<Longrightarrow> s \<noteq> Finished"
  by (cases s) simp_all

lemma group_inv_fail:
  assumes inv: "group_inv g" and i: "i < length (tasks g)" and a: "active (tasks g ! i)"
      and e: "wait_failure e \<or> scrape_failure (urls g ! i) e"
  shows "group_inv (task_fail i e (g\<lparr>wld := w'\<rparr>))"
proof -
  have nf: "tasks g ! i \<noteq> Finished" using a by (rule active_not_Finished)
  have notin: "i \<notin> set (map fst (returned g))" using inv nf unfolding group_inv_def by blast
  have 1: "length (tasks (task_fail i e (g\<lparr>wld := w'\<rparr>))) = length (urls (task_fail i e (g\<lparr>wld := w'\<rparr>)))"
    using inv by (simp add: group_inv_def)
  have 2: "articles (task_fail i e (g\<lparr>wld := w'\<rparr>)) = concat (map (fst \<circ> snd) (returned (task_fail i e (g\<lparr>wld := w'\<rparr>))))"
    using inv by (simp add: group_inv_def)
  have 3: "gerr (task_fail i e (g\<lparr>wld := w'\<rparr>)) = map_option snd (first_failure (returned (task_fail i e (g\<lparr>wld := w'\<rparr>))))"
    using inv by (simp add: group_inv_def first_failure_append split: option.splits)
  have 4: "gerr (task_fail i e (g\<lparr>wld := w'\<rparr>)) = None \<or> gctx (task_fail i e (g\<lparr>wld := w'\<rparr>)) \<noteq> None"
    using inv by (auto simp: group_inv_def split: option.splits)
  have 5: "distinct (map fst (returned (task_fail i e (g\<lparr>wld := w'\<rparr>))))"
    using inv notin by (simp add: group_inv_def)
  have 6: "set (map fst (returned (task_fail i e (g\<lparr>wld := w'\<rparr>))))
             = {j. j < length (tasks (task_fail i e (g\<lparr>wld := w'\<rparr>))) \<and> tasks (task_fail i e (g\<lparr>wld := w'\<rparr>)) ! j = Finished}"
    using inv finished_set_insert[OF i] by (simp add: group_inv_def)
  have 7: "list_all (outcome_ok (urls (task_fail i e (g\<lparr>wld := w'\<rparr>)))) (returned (task_fail i e (g\<lparr>wld := w'\<rparr>)))"
    using inv e by (simp add: group_inv_def outcome_ok_def)
  from 1 2 3 4 5 6 7 show ?thesis unfolding group_inv_def by blast
qed

lemma group_inv_ok:
  assumes inv: "group_inv g" and i: "i < length (tasks g)" and a: "active (tasks g ! i)"
  shows "group_inv (task_ok i arts (g\<lparr>wld := w'\<rparr>))"
proof -
  have nf: "tasks g ! i \<noteq> Finished" using a by (rule active_not_Finished)
  have notin: "i \<notin> set (map fst (returned g))" using inv nf unfolding group_inv_def by blast
  have 1: "length (tasks (task_ok i arts (g\<lparr>wld := w'\<rparr>))) = length (urls (task_ok i arts (g\<lparr>wld := w'\<rparr>)))"
    using inv by (simp add: group_inv_def)
  have 2: "articles (task_ok i arts (g\<lparr>wld := w'\<rparr>)) = concat (map (fst \<circ> snd) (returned (task_ok i arts (g\<lparr>wld := w'\<rparr>))))"
    using inv by (simp add: group_inv_def)
  have 3: "gerr (task_ok i arts (g\<lparr>wld := w'\<rparr>)) = map_option snd (first_failure (returned (task_ok i arts (g\<lparr>wld := w'\<rparr>))))"
    using inv by (simp add: group_inv_def first_failure_append split: option.splits)
  have 4: "gerr (task_ok i arts (g\<lparr>wld := w'\<rparr>)) = None \<or> gctx (task_ok i arts (g\<lparr>wld := w'\<rparr>)) \<noteq> None"
    using inv by (auto simp: group_inv_def)
  have 5: "distinct (map fst (returned (task_ok i arts (g\<lparr>wld := w'\<rparr>))))"
    using inv notin by (simp add: group_inv_def)
  have 6: "set (map fst (returned (task_ok i arts (g\<lparr>wld := w'\<rparr>))))
             = {j. j < length (tasks (task_ok i arts (g\<lparr>wld := w'\<rparr>))) \<and> tasks (task_ok i arts (g\<lparr>wld := w'\<rparr>)) ! j = Finished}"
    using inv finished_set_insert[OF i] by (simp add: group_inv_def)
  have 7: "list_all (outcome_ok (urls (task_ok i arts (g\<lparr>wld := w'\<rparr>)))) (returned (task_ok i arts (g\<lparr>wld := w'\<rparr>)))"
    using inv by (simp add: group_inv_def outcome_ok_def)
  from 1 2 3 4 5 6 7 show ?thesis unfolding group_inv_def by blast
qed

lemma group_inv_status:
  assumes inv: "group_inv g" and i: "i < length (tasks g)" and nf: "tasks g ! i \<noteq> Finished"
      and s: "s \<noteq> Finished"
  shows "group_inv (g\<lparr>wld := w', tasks := (tasks g)[i := s]\<rparr>)"
  using inv finished_set_update[OF i nf s] by (auto simp: group_inv_def)

lemma group_inv_wld: "group_inv g \<Longrightarrow> group_inv (g\<lparr>wld := w'\<rparr>)"
  by (auto simp: group_inv_def)

lemma group_inv_gctx: "group_inv g \<Longrightarrow> group_inv (g\<lparr>gctx := Some e\<rparr>)"
  by (auto simp: group_inv_def)

lemma group_inv_moves: "group_inv g \<Longrightarrow> moves g g' \<Longrightarrow> group_inv g'"
  unfolding moves_def
  by (elim disjE exE conjE)
     (simp_all add: group_inv_status group_inv_fail group_inv_ok group_inv_wld group_inv_gctx)

lemma group_inv_step: "group_inv g \<Longrightarrow> group_inv (step env ev g)"
  using group_inv_moves moves_step by blast

lemma group_inv_run: "group_inv g \<Longrightarrow> group_inv (run env sched g)"
  unfolding run_def by (induction sched arbitrary: g) (simp_all add: group_inv_step)

lemma group_inv_start: "group_inv (start c us w)"
  by (simp add: group_inv_def start_def)

lemma moves_basic:
  assumes "moves g g'"
  shows "length (tasks g') = length (tasks g) \<and> urls g' = urls g
       \<and> (\<forall>j. j < length (tasks g) \<and> tasks g ! j = Finished \<longrightarrow> tasks g' ! j = Finished)"
  using assms unfolding moves_def
  by (elim disjE exE conjE) (auto simp: nth_list_update)

lemma step_basic:
  "length (tasks (step env ev g)) = length (tasks g)"
  "urls (step env ev g) = urls g"
  "j < length (tasks g) \<Longrightarrow> tasks g ! j = Finished \<Longrightarrow> tasks (step env ev g) ! j = Finished"
  using moves_basic[OF moves_step[of g env ev]] by simp_all

lemma limiter_simps [simp]:
  "frames (limiter_reserve w) = frames w"
  "goroutines (limiter_reserve w) = goroutines w"
  "requests (limiter_reserve w) = requests w"
  "config (scraper (limiter_reserve w)) = config (scraper w)"
  "collector (scraper (limiter_reserve w)) = collector (scraper w)"
  "reserved (limiter (scraper (limiter_reserve w))) = Suc (reserved (limiter (scraper w)))"
  "frames (limiter_cancel w) = frames w"
  "goroutines (limiter_cancel w) = goroutines w"
  "requests (limiter_cancel w) = requests w"
  "config (scraper (limiter_cancel w)) = config (scraper w)"
  "collector (scraper (limiter_cancel w)) = collector (scraper w)"
  by (simp_all add: limiter_reserve_def limiter_cancel_def)

lemma select_ctx_world [simp]:
  "frames (snd (select_ctx e w)) = frames w"
  "goroutines (snd (select_ctx e w)) = goroutines w"
  "requests (snd (select_ctx e w)) = requests w"
  "config (scraper (snd (select_ctx e w))) = config (scraper w)"
  "limiter (scraper (snd (select_ctx e w))) = limiter (scraper w)"
  by (simp_all add: select_ctx_def)

lemma run_goroutine_goroutines [simp]:
  "goroutines (run_goroutine env fid url w) = remove1 (fid, url) (goroutines w)"
  by (simp add: run_goroutine_def Let_def split_beta split: option.splits)

lemma nth_update_done:
  "k < length fs \<Longrightarrow>
   done_closed (fs[fid := (fs ! fid)\<lparr>done_closed := True\<rparr>] ! k) = (k = fid \<or> done_closed (fs ! k))"
  by (cases "fid < length fs") (auto simp: nth_list_update list_update_beyond)

lemma nth_update_err:
  "done_closed (fs[fid := (fs ! fid)\<lparr>scrapeErr := x\<rparr>] ! k) = done_closed (fs ! k)"
proof (cases "k = fid \<and> fid < length fs")
  case True
  then show ?thesis by simp
next
  case False
  then have "fs[fid := (fs ! fid)\<lparr>scrapeErr := x\<rparr>] ! k = fs ! k"
    by (cases "fid < length fs") (simp_all add: list_update_beyond)
  then show ?thesis by simp
qed

lemma run_goroutine_done:
  assumes k: "k < length (frames w)"
  shows "done_closed (frames (run_goroutine env fid url w) ! k) = (k = fid \<or> done_closed (frames w ! k))"
proof -
  let ?w1 = "snd (Visit env url w)"
  have k1: "k < length (frames ?w1)" using k by simp
  show ?thesis
  proof (cases "fst (Visit env url w)")
    case None
    then have "frames (run_goroutine env fid url w)
                 = (frames ?w1)[fid := (frames ?w1 ! fid)\<lparr>done_closed := True\<rparr>]"
      by (simp add: run_goroutine_def Let_def split_beta)
    then show ?thesis using nth_update_done[OF k1, of fid] by simp
  next
    case (Some e)
    let ?fs = "(frames ?w1)[fid := (frames ?w1 ! fid)\<lparr>scrapeErr := Some (Errorf_w (str ''failed to start scraping: '') e)\<rparr>]"
    have "frames (run_goroutine env fid url w) = ?fs[fid := (?fs ! fid)\<lparr>done_closed := True\<rparr>]"
      using Some by (simp add: run_goroutine_def Let_def split_beta)
    moreover have "k < length ?fs" using k1 by simp
    ultimately show ?thesis using nth_update_done[of k ?fs fid] nth_update_err[of "frames ?w1" fid _ k]
      by simp
  qed
qed

lemma map_of_remove1_other:
  "k \<noteq> fid \<Longrightarrow> map_of (remove1 (fid, url) gs) k = map_of gs k"
  by (induction gs) auto

lemma world_grows_refl [simp]: "world_grows w w"
  by (simp add: world_grows_def)

lemma world_grows_limiter [simp]:
  "world_grows w (limiter_reserve w)" "world_grows w (limiter_cancel w)"
  by (simp_all add: world_grows_def)

lemma world_grows_select_ctx [simp]: "world_grows w (snd (select_ctx e w))"
  by (simp add: world_grows_def)

lemma world_grows_registered [simp]: "world_grows w (registered url w)"
  by (auto simp: world_grows_def nth_append)

lemma world_grows_run_goroutine [simp]: "world_grows w (run_goroutine env fid url w)"
  unfolding world_grows_def
proof (intro conjI allI impI)
  show "length (frames w) \<le> length (frames (run_goroutine env fid url w))" by simp
next
  fix k assume "k < length (frames w) \<and> done_closed (frames w ! k)"
  then show "done_closed (frames (run_goroutine env fid url w) ! k)" by (simp add: run_goroutine_done)
next
  fix k assume a: "k < length (frames w) \<and> map_of (goroutines w) k \<noteq> None"
  show "map_of (goroutines (run_goroutine env fid url w)) k \<noteq> None
        \<or> done_closed (frames (run_goroutine env fid url w) ! k)"
  proof (cases "k = fid")
    case True
    then show ?thesis using a by (simp add: run_goroutine_done)
  next
    case False
    then show ?thesis using a by (simp add: map_of_remove1_other)
  qed
qed

lemma scrape_begin_cases:
  "scrape_begin url w = (Inl (ErrorString (str ''invalid Flipboard URL: '' @ url)), w)
   \<or> scrape_begin url w = (Inr (length (frames w)), registered url w)"
  using scrape_begin_invalid[of url w] scrape_begin_valid[of url w] by blast

lemma task_return_simps [simp]:
  "wld (task_return i url r g) = wld g"
  "urls (task_return i url r g) = urls g"
  "tasks (task_return i url r g) = (tasks g)[i := Finished]"
  by (simp_all add: task_return_def split: option.splits)

lemma select_done_world: "select_done fid w = (r, w1) \<Longrightarrow> w1 = w"
  by (metis select_done_snd snd_conv)

lemma step_world_grows: "world_grows (wld g) (wld (step env ev g))"
proof (cases ev)
  case (TimerFires i)
  then show ?thesis using scrape_begin_cases[of "urls g ! i" "wld g"] by auto
next
  case (SelectDone i)
  then show ?thesis by (auto split: status.splits prod.splits dest: select_done_world)
next
  case (SelectCtx i)
  have "\<And>e r w1. select_ctx e (wld g) = (r, w1) \<Longrightarrow> world_grows (wld g) w1"
    using world_grows_select_ctx by (metis snd_conv)
  then show ?thesis using SelectCtx by (auto split: status.splits option.splits prod.splits)
qed (auto simp: Let_def split: option.splits)

lemma step_config [simp]:
  "config (scraper (wld (step env ev g))) = config (scraper (wld g))"
proof (cases ev)
  case (TimerFires i)
  then show ?thesis using scrape_begin_cases[of "urls g ! i" "wld g"] by auto
next
  case (SelectDone i)
  then show ?thesis by (auto split: status.splits prod.splits dest: select_done_world)
next
  case (SelectCtx i)
  have "\<And>e r w1. select_ctx e (wld g) = (r, w1) \<Longrightarrow> config (scraper w1) = config (scraper (wld g))"
    using select_ctx_world(4) by (metis snd_conv)
  then show ?thesis using SelectCtx by (auto split: status.splits option.splits prod.splits)
qed (auto simp: Let_def split: option.splits)

lemma step_scraping:
  assumes "i < length (tasks g)" "tasks (step env ev g) ! i = Scraping fid"
  shows "tasks g ! i = Scraping fid
       \<or> (fid = length (frames (wld g)) \<and> wld (step env ev g) = registered (urls g ! i) (wld g))"
proof (cases ev)
  case Go
  then show ?thesis using assms by (auto simp: Let_def nth_list_update split: if_splits)
next
  case (WaitEnter j)
  then show ?thesis using assms by (auto simp: nth_list_update split: if_splits option.splits)
next
  case (WaitRefuse j)
  then show ?thesis using assms by (auto simp: nth_list_update split: if_splits)
next
  case (TimerFires j)
  then show ?thesis using assms scrape_begin_cases[of "urls g ! j" "wld g"]
    by (auto simp: nth_list_update split: if_splits)
next
  case (WaitCancelled j)
  then show ?thesis using assms by (auto simp: nth_list_update split: if_splits option.splits)
next
  case (RunVisit f)
  then show ?thesis using assms by (auto split: option.splits)
next
  case (SelectDone j)
  then show ?thesis using assms
    by (auto simp: nth_list_update split: if_splits status.splits prod.splits)
next
  case (SelectCtx j)
  then show ?thesis using assms
    by (auto simp: nth_list_update split: if_splits status.splits prod.splits option.splits)
next
  case (Cancel e)
  then show ?thesis using assms by (auto split: option.splits)
qed

lemma scraping_ready_step:
  assumes r: "scraping_ready g"
  shows "scraping_ready (step env ev g)"
  unfolding scraping_ready_def
proof (intro allI impI)
  fix i fid
  let ?g' = "step env ev g"
  assume a: "i < length (tasks ?g') \<and> tasks ?g' ! i = Scraping fid"
  then have i: "i < length (tasks g)" by (simp add: step_basic)
  have wg: "world_grows (wld g) (wld ?g')" by (rule step_world_grows)
  from step_scraping[OF i] a
  consider (old) "tasks g ! i = Scraping fid"
    | (new) "fid = length (frames (wld g))" "wld ?g' = registered (urls g ! i) (wld g)"
    by blast
  then show "fid < length (frames (wld ?g'))
        \<and> (done_closed (frames (wld ?g') ! fid) \<or> map_of (goroutines (wld ?g')) fid \<noteq> None)"
  proof cases
    case old
    with r i have f: "fid < length (frames (wld g))"
      and d: "done_closed (frames (wld g) ! fid) \<or> map_of (goroutines (wld g)) fid \<noteq> None"
      unfolding scraping_ready_def by blast+
    from wg f d show ?thesis unfolding world_grows_def by (meson le_trans not_less)
  next
    case new
    then show ?thesis by (auto simp: map_of_append)
  qed
qed

lemma before_next_pending: "i < next_pending g \<Longrightarrow> tasks g ! i \<noteq> Pending"
  unfolding next_pending_def
  by (metis (mono_tags, lifting) nth_mem set_takeWhileD takeWhile_nth)

lemma pending_suffix_status:
  assumes p: "pending_suffix g" and i: "i < length (tasks g)" and sp: "s \<noteq> Pending"
      and np: "tasks g ! i = Pending \<longrightarrow> i = next_pending g"
  shows "pending_suffix (g\<lparr>wld := w', tasks := (tasks g)[i := s]\<rparr>)"
  unfolding pending_suffix_def
proof (intro allI impI)
  fix a b
  let ?g' = "g\<lparr>wld := w', tasks := (tasks g)[i := s]\<rparr>"
  assume h: "a \<le> b \<and> b < length (tasks ?g') \<and> tasks ?g' ! a = Pending"
  then have b: "b < length (tasks g)" by simp
  have an: "a \<noteq> i" using h sp i by (auto simp: nth_list_update split: if_splits)
  then have ap: "tasks g ! a = Pending" using h by (simp add: nth_list_update)
  then have bp: "tasks g ! b = Pending" using p h b unfolding pending_suffix_def by blast
  have "b \<noteq> i"
  proof
    assume "b = i"
    then have "i = next_pending g" using bp np by simp
    then have "a < next_pending g" using h an \<open>b = i\<close> by simp
    then show False using before_next_pending ap by blast
  qed
  then show "tasks ?g' ! b = Pending" using bp by simp
qed

lemma pending_suffix_finish:
  assumes p: "pending_suffix g" and i: "i < length (tasks g)" and a: "active (tasks g ! i)"
      and t: "tasks g' = (tasks g)[i := Finished]"
  shows "pending_suffix g'"
  unfolding pending_suffix_def
proof (intro allI impI)
  fix a b
  have np: "tasks g ! i \<noteq> Pending" using a by (cases "tasks g ! i") simp_all
  assume h: "a \<le> b \<and> b < length (tasks g') \<and> tasks g' ! a = Pending"
  then have b: "b < length (tasks g)" using t by simp
  have "a \<noteq> i" using h t i by (auto simp: nth_list_update split: if_splits)
  then have "tasks g ! a = Pending" using h t by (simp add: nth_list_update)
  then have bp: "tasks g ! b = Pending" using p h b unfolding pending_suffix_def by blast
  then have "b \<noteq> i" using np by auto
  then show "tasks g' ! b = Pending" using bp t by simp
qed

lemma pending_suffix_same: "pending_suffix g \<Longrightarrow> tasks g' = tasks g \<Longrightarrow> pending_suffix g'"
  by (simp add: pending_suffix_def)

lemma pending_suffix_moves:
  assumes p: "pending_suffix g" and m: "moves g g'"
  shows "pending_suffix g'"
  using m p unfolding moves_def
  by (elim disjE exE conjE)
     (simp_all add: pending_suffix_status pending_suffix_finish[where g' = "task_fail _ _ _"]
        pending_suffix_finish[where g' = "task_ok _ _ _"] pending_suffix_same[where g' = "_\<lparr>wld := _\<rparr>"]
        pending_suffix_same[where g' = "_\<lparr>gctx := _\<rparr>"])

lemma pending_suffix_step: "pending_suffix g \<Longrightarrow> pending_suffix (step env ev g)"
  using pending_suffix_moves moves_step by blast

lemma next_pending_first:
  assumes i: "i < length (tasks g)" and p: "tasks g ! i = Pending"
      and b: "\<forall>j<i. tasks g ! j \<noteq> Pending"
  shows "next_pending g = i"
proof -
  have "\<not> i < next_pending g" using before_next_pending p by blast
  moreover have "\<not> next_pending g < i"
  proof
    assume l: "next_pending g < i"
    then have "next_pending g < length (tasks g)" using i by simp
    then have "tasks g ! next_pending g = Pending" by (rule next_pending_Pending)
    then show False using b l by blast
  qed
  ultimately show ?thesis by simp
qed

lemma no_active:
  assumes ps: "pending_suffix g" and i: "i < length (tasks g)" and p: "tasks g ! i = Pending"
      and f: "\<forall>j<i. tasks g ! j = Finished"
  shows "filter active (tasks g) = []"
proof -
  have "\<forall>s\<in>set (tasks g). \<not> active s"
  proof
    fix s assume "s \<in> set (tasks g)"
    then obtain j where j: "j < length (tasks g)" "tasks g ! j = s" by (auto simp: in_set_conv_nth)
    show "\<not> active s"
    proof (cases "j < i")
      case True
      then show ?thesis using f j by auto
    next
      case False
      then have "tasks g ! j = Pending" using ps i p j unfolding pending_suffix_def
        by (meson not_less)
      then show ?thesis using j by auto
    qed
  qed
  then show ?thesis by (simp add: filter_empty_conv)
qed

lemma Go_starts:
  assumes ps: "pending_suffix g" and i: "i < length (tasks g)"
      and f: "\<forall>j<i. tasks g ! j = Finished"
      and n: "ConcurrentRequests (config (scraper (wld g))) \<noteq> 0"
  shows "tasks (step env Go g) ! i \<noteq> Pending"
proof (cases "tasks g ! i = Pending")
  case True
  have b: "\<forall>j<i. tasks g ! j \<noteq> Pending" using f by simp
  have k: "next_pending g = i" using next_pending_first[OF i True b] .
  have a: "filter active (tasks g) = []" using no_active[OF ps i True f] .
  have "step env Go g = g\<lparr>tasks := (tasks g)[i := Started]\<rparr>"
    using k a i n by (auto simp: Let_def)
  then show ?thesis using i by simp
next
  case False
  have m: "moves g (step env Go g)" by (rule moves_Go)
  show ?thesis
  proof (cases "next_pending g = i")
    case True
    then show ?thesis using False next_pending_Pending[of g] i by simp
  next
    case ne: False
    then show ?thesis using False i by (auto simp: Let_def)
  qed
qed

lemma WaitEnter_status:
  assumes "i < length (tasks g)" "tasks g ! i \<noteq> Pending"
  shows "tasks (step env (WaitEnter i) g) ! i \<noteq> Pending \<and> tasks (step env (WaitEnter i) g) ! i \<noteq> Started"
  using assms by (auto split: option.splits)

lemma TimerFires_status:
  assumes "i < length (tasks g)" "tasks g ! i \<noteq> Pending" "tasks g ! i \<noteq> Started"
  shows "tasks (step env (TimerFires i) g) ! i \<noteq> Pending \<and> tasks (step env (TimerFires i) g) ! i \<noteq> Started
       \<and> tasks (step env (TimerFires i) g) ! i \<noteq> Sleeping"
  using assms scrape_begin_cases[of "urls g ! i" "wld g"] by auto

lemma RunVisit_closes:
  assumes r: "scraping_ready g" and i: "i < length (tasks g)" and s: "tasks g ! i = Scraping fid"
  shows "tasks (step env (RunVisit fid) g) = tasks g
       \<and> done_closed (frames (wld (step env (RunVisit fid) g)) ! fid)"
proof -
  from r i s have f: "fid < length (frames (wld g))"
    and d: "done_closed (frames (wld g) ! fid) \<or> map_of (goroutines (wld g)) fid \<noteq> None"
    unfolding scraping_ready_def by blast+
  show ?thesis
  proof (cases "map_of (goroutines (wld g)) fid")
    case None
    then show ?thesis using d by simp
  next
    case (Some url)
    then show ?thesis using f by (simp add: run_goroutine_done)
  qed
qed

lemma SelectDone_finishes:
  assumes "i < length (tasks g)" "tasks g ! i = Scraping fid" "done_closed (frames (wld g) ! fid)"
  shows "tasks (step env (SelectDone i) g) ! i = Finished"
  using assms by (auto split: prod.splits)

declare step.simps [simp del]

lemma finish_task_finishes:
  assumes ps: "pending_suffix g" and sr: "scraping_ready g" and i: "i < length (tasks g)"
      and f: "\<forall>j<i. tasks g ! j = Finished"
      and n: "ConcurrentRequests (config (scraper (wld g))) \<noteq> 0"
  shows "tasks (finish_task env i g) ! i = Finished"
proof -
  let ?g0 = "step env Go g"
  let ?g1 = "step env (WaitEnter i) ?g0"
  let ?g2 = "step env (TimerFires i) ?g1"
  let ?g3 = "case tasks ?g2 ! i of Scraping fid \<Rightarrow> step env (RunVisit fid) ?g2 | _ \<Rightarrow> ?g2"
  have ft: "finish_task env i g = step env (SelectDone i) ?g3"
    by (simp add: finish_task_def Let_def)
  have i0: "i < length (tasks ?g0)" using i by (simp add: step_basic)
  have i1: "i < length (tasks ?g1)" using i by (simp add: step_basic)
  have i2: "i < length (tasks ?g2)" using i by (simp add: step_basic)
  have s0: "tasks ?g0 ! i \<noteq> Pending" using Go_starts[OF ps i f n] .
  have s1: "tasks ?g1 ! i \<noteq> Pending \<and> tasks ?g1 ! i \<noteq> Started"
    using WaitEnter_status[OF i0 s0] .
  have s2: "tasks ?g2 ! i \<noteq> Pending \<and> tasks ?g2 ! i \<noteq> Started \<and> tasks ?g2 ! i \<noteq> Sleeping"
    using TimerFires_status[OF i1] s1 by blast
  have r2: "scraping_ready ?g2" using sr by (intro scraping_ready_step)
  show ?thesis
  proof (cases "tasks ?g2 ! i")
    case (Scraping fid)
    then have g3: "?g3 = step env (RunVisit fid) ?g2" by simp
    from RunVisit_closes[OF r2 i2 Scraping]
    have "tasks ?g3 ! i = Scraping fid" and "done_closed (frames (wld ?g3) ! fid)" and "i < length (tasks ?g3)"
      using g3 Scraping i2 by simp_all
    then show ?thesis unfolding ft by (rule_tac SelectDone_finishes) simp_all
  next
    case Finished
    then have "?g3 = ?g2" by simp
    then show ?thesis unfolding ft using Finished i2 by (simp add: step_basic)
  qed (use s2 in simp_all)
qed

lemma finish_task_steps:
  "\<exists>evs. finish_task env i g = fold (step env) evs g"
proof -
  let ?g2 = "step env (TimerFires i) (step env (WaitEnter i) (step env Go g))"
  show ?thesis
  proof (cases "\<exists>fid. tasks ?g2 ! i = Scraping fid")
    case True
    then obtain fid where "tasks ?g2 ! i = Scraping fid" by blast
    then have "finish_task env i g = fold (step env) [Go, WaitEnter i, TimerFires i, RunVisit fid, SelectDone i] g"
      by (simp add: finish_task_def Let_def)
    then show ?thesis by blast
  next
    case False
    then have "finish_task env i g = fold (step env) [Go, WaitEnter i, TimerFires i, SelectDone i] g"
      by (cases "tasks ?g2 ! i") (simp_all add: finish_task_def Let_def)
    then show ?thesis by blast
  qed
qed

lemma fold_step_keeps:
  "pending_suffix g \<Longrightarrow> pending_suffix (fold (step env) evs g)"
  "scraping_ready g \<Longrightarrow> scraping_ready (fold (step env) evs g)"
  "group_inv g \<Longrightarrow> group_inv (fold (step env) evs g)"
  "length (tasks (fold (step env) evs g)) = length (tasks g)"
  "urls (fold (step env) evs g) = urls g"
  "config (scraper (wld (fold (step env) evs g))) = config (scraper (wld g))"
  by (induction evs arbitrary: g) (simp_all add: pending_suffix_step scraping_ready_step group_inv_step step_basic)

lemma fold_step_keeps_finished:
  "j < length (tasks g) \<Longrightarrow> tasks g ! j = Finished \<Longrightarrow> tasks (fold (step env) evs g) ! j = Finished"
  by (induction evs arbitrary: g) (simp_all add: step_basic)

lemma finish_task_keeps:
  "pending_suffix g \<Longrightarrow> pending_suffix (finish_task env i g)"
  "scraping_ready g \<Longrightarrow> scraping_ready (finish_task env i g)"
  "group_inv g \<Longrightarrow> group_inv (finish_task env i g)"
  "length (tasks (finish_task env i g)) = length (tasks g)"
  "urls (finish_task env i g) = urls g"
  "config (scraper (wld (finish_task env i g))) = config (scraper (wld g))"
  "j < length (tasks g) \<Longrightarrow> tasks g ! j = Finished \<Longrightarrow> tasks (finish_task env i g) ! j = Finished"
  using finish_task_steps[of env i g]
  by (auto simp: fold_step_keeps fold_step_keeps_finished)

lemma fold_finish_keeps:
  "pending_suffix g \<Longrightarrow> pending_suffix (fold (finish_task env) is g)"
  "scraping_ready g \<Longrightarrow> scraping_ready (fold (finish_task env) is g)"
  "group_inv g \<Longrightarrow> group_inv (fold (finish_task env) is g)"
  "length (tasks (fold (finish_task env) is g)) = length (tasks g)"
  "urls (fold (finish_task env) is g) = urls g"
  "config (scraper (wld (fold (finish_task env) is g))) = config (scraper (wld g))"
  by (induction "is" arbitrary: g) (simp_all add: finish_task_keeps)

lemma fold_finish_keeps_finished:
  "j < length (tasks g) \<Longrightarrow> tasks g ! j = Finished \<Longrightarrow> tasks (fold (finish_task env) is g) ! j = Finished"
  by (induction "is" arbitrary: g) (simp_all add: finish_task_keeps)

lemma fold_finish_upto:
  assumes ps: "pending_suffix g" and sr: "scraping_ready g"
      and n: "ConcurrentRequests (config (scraper (wld g))) \<noteq> 0"
  shows "k \<le> length (tasks g) \<Longrightarrow> \<forall>j<k. tasks (fold (finish_task env) [0..<k] g) ! j = Finished"
proof (induction k)
  case 0
  then show ?case by simp
next
  case (Suc k)
  let ?g = "fold (finish_task env) [0..<k] g"
  have k: "k < length (tasks ?g)" using Suc.prems by (simp add: fold_finish_keeps)
  have f: "\<forall>j<k. tasks ?g ! j = Finished" using Suc by simp
  have fin: "tasks (finish_task env k ?g) ! k = Finished"
    using finish_task_finishes[OF _ _ k f] ps sr n by (simp add: fold_finish_keeps)
  have "fold (finish_task env) [0..<Suc k] g = finish_task env k ?g" by simp
  moreover have "\<forall>j<k. tasks (finish_task env k ?g) ! j = Finished"
    using f k by (simp add: finish_task_keeps)
  ultimately show ?case using fin by (auto simp: less_Suc_eq)
qed

lemma start_invs:
  "pending_suffix (start c us w)" "scraping_ready (start c us w)"
  by (auto simp: pending_suffix_def scraping_ready_def start_def)

lemma run_keeps:
  "pending_suffix g \<Longrightarrow> pending_suffix (run env sched g)"
  "scraping_ready g \<Longrightarrow> scraping_ready (run env sched g)"
  "length (tasks (run env sched g)) = length (tasks g)"
  "urls (run env sched g) = urls g"
  "config (scraper (wld (run env sched g))) = config (scraper (wld g))"
  unfolding run_def by (simp_all add: fold_step_keeps)

lemma final_group_props:
  "group_inv (final_group env sched c us w)"
  "length (tasks (final_group env sched c us w)) = length us"
  "urls (final_group env sched c us w) = us"
proof -
  let ?g = "run env sched (start c us w)"
  have "group_inv ?g" by (simp add: group_inv_run group_inv_start)
  then show "group_inv (final_group env sched c us w)"
    by (simp add: final_group_def reached_def finish_all_def fold_finish_keeps)
  have "length (tasks ?g) = length us" "urls ?g = us" by (simp_all add: run_keeps start_def)
  then show "length (tasks (final_group env sched c us w)) = length us"
    "urls (final_group env sched c us w) = us"
    by (simp_all add: final_group_def reached_def finish_all_def fold_finish_keeps)
qed

lemma final_group_finished:
  assumes "ConcurrentRequests (config (scraper w)) \<noteq> 0"
  shows "list_all finished (tasks (final_group env sched c us w))"
proof -
  let ?g = "run env sched (start c us w)"
  have n: "ConcurrentRequests (config (scraper (wld ?g))) \<noteq> 0"
    using assms by (simp add: run_keeps start_def)
  have "\<forall>j<length (tasks ?g). tasks (fold (finish_task env) [0..<length (tasks ?g)] ?g) ! j = Finished"
    using fold_finish_upto[OF _ _ n, of "length (tasks ?g)"] by (simp add: run_keeps start_invs)
  then have "\<forall>j<length (tasks (final_group env sched c us w)). tasks (final_group env sched c us w) ! j = Finished"
    by (simp add: final_group_def reached_def finish_all_def fold_finish_keeps)
  then show ?thesis by (auto simp: list_all_length)
qed

lemmas eval_defs = ScrapeURLs_def final_group_def reached_def finish_all_def finish_task_def run_def start_def
  step.simps next_pending_def Let_def task_return_def task_fail_def task_ok_def
  limiter_reserve_def limiter_cancel_def scrape_begin_def registered_def select_done_def select_ctx_def
  run_goroutine_def Visit_def handleOnHTML_def handleOnError_def onHTML_def onError_def new_article_def
  new_world_def NewMagazineScraper_def DefaultConfig_def static_env_def
  HasPrefix_def flip_url_def invalid_url_def Errorf_w_def

lemma Contains_prefix: "Contains (b @ c) b"
proof (cases "b @ c")
  case Nil
  then show ?thesis by simp
next
  case (Cons a l)
  have "take (length b) (b @ c) = b" by simp
  then have "take (length b) (a # l) = b" using Cons by simp
  then have "Contains (a # l) b" by simp
  then show ?thesis using Cons by simp
qed

lemma Contains_after: "Contains s sub \<Longrightarrow> Contains (a @ s) sub"
  by (induction a) simp_all

lemma Contains_middle: "Contains (a @ b @ c) b"
  by (rule Contains_after) (rule Contains_prefix)

lemma Contains_end: "Contains (a @ b) b"
  using Contains_middle[of a b "[]"] by simp

lemma Error_Errorf_w [simp]: "Error (Errorf_w m e) = m @ Error e"
  by (simp add: Errorf_w_def)

lemma Unwrap_Errorf_w [simp]: "Unwrap (Errorf_w m e) = Some e"
  by (simp add: Errorf_w_def)

lemma wait_failure_D:
  "wait_failure e \<Longrightarrow> \<exists>cause. Unwrap e = Some cause \<and> e = Errorf_w (str ''rate limiter wait failed: '') cause"
  by (auto simp: wait_failure_def split: option.splits)

lemma scrape_failure_D:
  "scrape_failure url e \<Longrightarrow>
   \<exists>cause. Unwrap e = Some cause \<and> e = Errorf_w (str ''failed to scrape '' @ url @ str '': '') cause"
  by (auto simp: scrape_failure_def split: option.splits)

lemma first_failure_None: "first_failure rs = None \<longleftrightarrow> list_all (\<lambda>r. snd (snd r) = None) rs"
  by (induction rs rule: first_failure.induct) simp_all

lemma first_failure_Some:
  "first_failure rs = Some (i, e) \<Longrightarrow> \<exists>arts. (i, arts, Some e) \<in> set rs"
  by (induction rs rule: first_failure.induct) auto

lemma failed_append_nothing:
  "list_all (outcome_ok us) rs \<Longrightarrow>
   concat (map (fst \<circ> snd) (filter (\<lambda>r. snd (snd r) = None) rs)) = concat (map (fst \<circ> snd) rs)"
  by (induction rs) (auto simp: outcome_ok_def split: option.splits)

lemma ScrapeURLs_returns:
  assumes "us \<noteq> []" and "ConcurrentRequests (config (scraper w)) \<noteq> 0"
  shows "ScrapeURLs env sched c us w =
           Some ((articles (final_group env sched c us w),
                  (case gerr (final_group env sched c us w) of
                     None \<Rightarrow> None
                   | Some e \<Rightarrow> Some (Errorf_w (str ''scraping error: '') e))),
                 wld (final_group env sched c us w))"
  using assms final_group_finished[OF assms(2), of env sched c us]
  by (simp add: ScrapeURLs_def Let_def)

lemma final_group_all_returned:
  assumes "ConcurrentRequests (config (scraper w)) \<noteq> 0"
  shows "set (map fst (returned (final_group env sched c us w))) = {0..<length us}"
proof -
  let ?G = "final_group env sched c us w"
  have "\<forall>j<length (tasks ?G). tasks ?G ! j = Finished"
    using final_group_finished[OF assms, of env sched c us]
    by (auto simp: list_all_length elim: finished.elims)
  moreover have "set (map fst (returned ?G)) = {i. i < length (tasks ?G) \<and> tasks ?G ! i = Finished}"
    using final_group_props(1)[of env sched c us w] unfolding group_inv_def by blast
  ultimately show ?thesis by (auto simp: final_group_props)
qed

text \<open>
  Claim C3, amended. On a list of URLs that is not empty (and with a concurrency limit
  other than 0, with which \<^verbatim>\<open>g.Go\<close> would block for ever) \<open>ScrapeURLs\<close> returns
  under every schedule, after every task has returned exactly once. It returns what the
  tasks appended, in the order in which they returned. Its error is nil exactly when no
  task failed. Otherwise it is one error that wraps the error of the first task that
  failed, and its message includes the message of the underlying cause; it includes the
  URL of that task when \<open>scrapeURL\<close> failed, whereas the error of a failed rate-limit
  wait names the cause only.
\<close>

theorem C3_error_wraps_first_failure:
  assumes "us \<noteq> []" and "ConcurrentRequests (config (scraper w)) \<noteq> 0"
  shows "\<exists>arts err w'. ScrapeURLs env sched c us w = Some ((arts, err), w')
     \<and> distinct (map fst (returned (final_group env sched c us w)))
     \<and> set (map fst (returned (final_group env sched c us w))) = {0..<length us}
     \<and> arts = concat (map (fst \<circ> snd)
                (filter (\<lambda>r. snd (snd r) = None) (returned (final_group env sched c us w))))
     \<and> (err = None \<longleftrightarrow> list_all (\<lambda>r. snd (snd r) = None) (returned (final_group env sched c us w)))
     \<and> (\<forall>e. err = Some e \<longrightarrow>
           (\<exists>i e0 cause. first_failure (returned (final_group env sched c us w)) = Some (i, e0)
              \<and> i < length us
              \<and> e = Errorf_w (str ''scraping error: '') e0 \<and> Unwrap e = Some e0
              \<and> Unwrap e0 = Some cause \<and> Contains (Error e) (Error cause)
              \<and> (e0 = Errorf_w (str ''rate limiter wait failed: '') cause
                  \<or> e0 = Errorf_w (str ''failed to scrape '' @ us ! i @ str '': '') cause
                    \<and> Contains (Error e) (us ! i))))"
proof -
  let ?G = "final_group env sched c us w"
  let ?err = "case gerr ?G of None \<Rightarrow> None | Some e \<Rightarrow> Some (Errorf_w (str ''scraping error: '') e)"
  have inv: "group_inv ?G" by (rule final_group_props)
  have ret: "ScrapeURLs env sched c us w = Some ((articles ?G, ?err), wld ?G)"
    using assms by (rule ScrapeURLs_returns)
  have d: "distinct (map fst (returned ?G))" using inv unfolding group_inv_def by blast
  have s: "set (map fst (returned ?G)) = {0..<length us}"
    using assms(2) by (rule final_group_all_returned)
  have ok: "list_all (outcome_ok us) (returned ?G)"
    using inv unfolding group_inv_def by (simp add: final_group_props)
  have a: "articles ?G = concat (map (fst \<circ> snd) (filter (\<lambda>r. snd (snd r) = None) (returned ?G)))"
    using inv failed_append_nothing[OF ok] unfolding group_inv_def by simp
  have ge: "gerr ?G = map_option snd (first_failure (returned ?G))" using inv unfolding group_inv_def by blast
  have n: "?err = None \<longleftrightarrow> list_all (\<lambda>r. snd (snd r) = None) (returned ?G)"
    using ge first_failure_None[of "returned ?G"] by (auto split: option.splits)
  have f: "\<forall>e. ?err = Some e \<longrightarrow>
           (\<exists>i e0 cause. first_failure (returned ?G) = Some (i, e0)
              \<and> i < length us
              \<and> e = Errorf_w (str ''scraping error: '') e0 \<and> Unwrap e = Some e0
              \<and> Unwrap e0 = Some cause \<and> Contains (Error e) (Error cause)
              \<and> (e0 = Errorf_w (str ''rate limiter wait failed: '') cause
                  \<or> e0 = Errorf_w (str ''failed to scrape '' @ us ! i @ str '': '') cause
                    \<and> Contains (Error e) (us ! i)))"
  proof (intro allI impI)
    fix e assume e: "?err = Some e"
    then obtain i e0 where ff: "first_failure (returned ?G) = Some (i, e0)"
      and ee: "e = Errorf_w (str ''scraping error: '') e0"
      using ge by (auto split: option.splits)
    from first_failure_Some[OF ff] obtain arts where m: "(i, arts, Some e0) \<in> set (returned ?G)" by blast
    then have "i \<in> set (map fst (returned ?G))" by force
    then have i: "i < length us" using s by simp
    from ok m have "outcome_ok us (i, arts, Some e0)" by (auto simp: list_all_iff)
    then have sh: "wait_failure e0 \<or> scrape_failure (us ! i) e0" by (simp add: outcome_ok_def)
    then show "\<exists>i e0 cause. first_failure (returned ?G) = Some (i, e0)
              \<and> i < length us
              \<and> e = Errorf_w (str ''scraping error: '') e0 \<and> Unwrap e = Some e0
              \<and> Unwrap e0 = Some cause \<and> Contains (Error e) (Error cause)
              \<and> (e0 = Errorf_w (str ''rate limiter wait failed: '') cause
                  \<or> e0 = Errorf_w (str ''failed to scrape '' @ us ! i @ str '': '') cause
                    \<and> Contains (Error e) (us ! i))"
    proof
      assume "wait_failure e0"
      then obtain cause where c: "Unwrap e0 = Some cause" "e0 = Errorf_w (str ''rate limiter wait failed: '') cause"
        using wait_failure_D by blast
      have "Contains (Error e) (Error cause)"
        using Contains_end[of "str ''scraping error: '' @ str ''rate limiter wait failed: ''" "Error cause"]
        by (simp add: ee c(2))
      then show ?thesis using ff i ee c by auto
    next
      assume "scrape_failure (us ! i) e0"
      then obtain cause where c: "Unwrap e0 = Some cause"
          "e0 = Errorf_w (str ''failed to scrape '' @ us ! i @ str '': '') cause"
        using scrape_failure_D by blast
      have 1: "Contains (Error e) (Error cause)"
        using Contains_end[of "str ''scraping error: '' @ str ''failed to scrape '' @ us ! i @ str '': ''" "Error cause"]
        by (simp add: ee c(2))
      have 2: "Contains (Error e) (us ! i)"
        using Contains_middle[of "str ''scraping error: '' @ str ''failed to scrape ''" "us ! i" "str '': '' @ Error cause"]
        by (simp add: ee c(2))
      show ?thesis using ff i ee c 1 2 by auto
    qed
  qed
  show ?thesis
    by (rule exI[of _ "articles ?G"], rule exI[of _ ?err], rule exI[of _ "wld ?G"])
       (intro conjI ret d s a n f)
qed

text \<open>
  Counterexample to C3 as stated (the second case of the repository's test
  \<^verbatim>\<open>TestScrapeURLsValidation\<close>): with a context whose deadline has passed the task
  fails in \<^verbatim>\<open>limiter.Wait\<close>, and the message of the error that \<open>ScrapeURLs\<close>
  returns does not include the URL.
\<close>

theorem C3_counterexample:
  "ScrapeURLs static_env [] (Some DeadlineExceeded) [flip_url] (new_world DefaultConfig)
     = Some (([], Some (Errorf_w (str ''scraping error: '')
                         (Errorf_w (str ''rate limiter wait failed: '') DeadlineExceeded))),
             new_world DefaultConfig)
   \<and> Error (Errorf_w (str ''scraping error: '') (Errorf_w (str ''rate limiter wait failed: '') DeadlineExceeded))
       = str ''scraping error: rate limiter wait failed: context deadline exceeded''
   \<and> \<not> Contains (str ''scraping error: rate limiter wait failed: context deadline exceeded'') flip_url"
proof -
  have "ScrapeURLs static_env [] (Some DeadlineExceeded) [flip_url] (new_world DefaultConfig)
     = Some (([], Some (Errorf_w (str ''scraping error: '')
                         (Errorf_w (str ''rate limiter wait failed: '') DeadlineExceeded))),
             new_world DefaultConfig)"
    by (simp add: eval_defs str_def upt_rec)
  moreover have "Error (Errorf_w (str ''scraping error: '') (Errorf_w (str ''rate limiter wait failed: '') DeadlineExceeded))
       = str ''scraping error: rate limiter wait failed: context deadline exceeded''"
    by (simp add: Errorf_w_def str_def)
  moreover have "\<not> Contains (str ''scraping error: rate limiter wait failed: context deadline exceeded'') flip_url"
    by (simp add: str_def flip_url_def)
  ultimately show ?thesis by blast
qed

text \<open>
  Witness for C3: the same run; the returned error wraps the first failure, whose cause
  is the context's error, and the message includes the cause's.
\<close>

theorem C3_witness:
  "[flip_url] \<noteq> [] \<and> ConcurrentRequests (config (scraper (new_world DefaultConfig))) \<noteq> 0
   \<and> ScrapeURLs static_env [] (Some DeadlineExceeded) [flip_url] (new_world DefaultConfig)
       = Some (([], Some (Errorf_w (str ''scraping error: '')
                           (Errorf_w (str ''rate limiter wait failed: '') DeadlineExceeded))),
               new_world DefaultConfig)
   \<and> first_failure (returned (final_group static_env [] (Some DeadlineExceeded) [flip_url] (new_world DefaultConfig)))
       = Some (0, Errorf_w (str ''rate limiter wait failed: '') DeadlineExceeded)
   \<and> Contains (Error (Errorf_w (str ''scraping error: '')
                         (Errorf_w (str ''rate limiter wait failed: '') DeadlineExceeded)))
               (Error DeadlineExceeded)"
proof -
  let ?E = "Errorf_w (str ''scraping error: '') (Errorf_w (str ''rate limiter wait failed: '') DeadlineExceeded)"
  let ?G = "final_group static_env [] (Some DeadlineExceeded) [flip_url] (new_world DefaultConfig)"
  have h1: "[flip_url] \<noteq> []" by simp
  have h2: "ConcurrentRequests (config (scraper (new_world DefaultConfig))) \<noteq> 0"
    by (simp add: new_world_def NewMagazineScraper_def DefaultConfig_def)
  have ev: "ScrapeURLs static_env [] (Some DeadlineExceeded) [flip_url] (new_world DefaultConfig)
       = Some (([], Some ?E), new_world DefaultConfig)"
    by (simp add: eval_defs str_def upt_rec)
  from C3_error_wraps_first_failure[OF h1 h2, of static_env "[]" "Some DeadlineExceeded"]
  obtain arts err w' where r: "ScrapeURLs static_env [] (Some DeadlineExceeded) [flip_url] (new_world DefaultConfig)
        = Some ((arts, err), w')"
    and f: "\<forall>e. err = Some e \<longrightarrow>
           (\<exists>i e0 cause. first_failure (returned ?G) = Some (i, e0)
              \<and> i < length [flip_url]
              \<and> e = Errorf_w (str ''scraping error: '') e0 \<and> Unwrap e = Some e0
              \<and> Unwrap e0 = Some cause \<and> Contains (Error e) (Error cause)
              \<and> (e0 = Errorf_w (str ''rate limiter wait failed: '') cause
                  \<or> e0 = Errorf_w (str ''failed to scrape '' @ [flip_url] ! i @ str '': '') cause
                    \<and> Contains (Error e) ([flip_url] ! i)))"
    by blast
  from r ev have "err = Some ?E" by simp
  with f obtain i e0 cause where ff: "first_failure (returned ?G) = Some (i, e0)" and i: "i < length [flip_url]"
    and u: "Unwrap ?E = Some e0" and u0: "Unwrap e0 = Some cause" and c: "Contains (Error ?E) (Error cause)"
    by blast
  from u have e0: "e0 = Errorf_w (str ''rate limiter wait failed: '') DeadlineExceeded" by simp
  with u0 have "cause = DeadlineExceeded" by simp
  with ff i e0 c h1 h2 ev show ?thesis by simp
qed

text \<open>
  Counterexample to C1 as stated: two URLs, the first without the required prefix. Both
  tasks start and enter \<^verbatim>\<open>limiter.Wait\<close>; the first gets its token and fails in
  \<open>scrapeURL\<close>, which cancels the group's context; the wait of the second is cancelled.
  No request is issued and no record is returned, although the second URL alone yields
  the document's record.
\<close>

theorem C1_counterexample:
  "map_option (\<lambda>r. (fst (fst r), requests (snd r)))
     (ScrapeURLs static_env [Go, Go, WaitEnter 0, WaitEnter 1, TimerFires 0, WaitCancelled 1] None
        [invalid_url, flip_url] (new_world DefaultConfig)) = Some ([], [])
   \<and> map_option (map content \<circ> fst \<circ> fst)
       (ScrapeURLs static_env [] None [flip_url] (new_world DefaultConfig)) = Some [(str ''Go news'', [], [])]"
proof -
  have "map_option (\<lambda>r. (fst (fst r), requests (snd r)))
     (ScrapeURLs static_env [Go, Go, WaitEnter 0, WaitEnter 1, TimerFires 0, WaitCancelled 1] None
        [invalid_url, flip_url] (new_world DefaultConfig)) = Some ([], [])"
    by (simp add: eval_defs str_def upt_rec)
  moreover have "map_option (map content \<circ> fst \<circ> fst)
       (ScrapeURLs static_env [] None [flip_url] (new_world DefaultConfig)) = Some [(str ''Go news'', [], [])]"
    by (simp add: eval_defs str_def upt_rec content_def item_def cleanText_def TrimSpace_def Fields_def IsSpace_def)
  ultimately show ?thesis by blast
qed

text \<open>
  Claim C1, amended. The tasks share the context of \<^verbatim>\<open>errgroup.WithContext\<close>: in
  every state of every execution, once a task has failed that context is done. A task
  that then enters \<^verbatim>\<open>limiter.Wait\<close> fails there with the context's error; it
  reserves no token and issues no request. A task that is waiting for its token can
  then return with the context's error, without a request; a task that is in the select
  of \<open>scrapeURL\<close> can then return the cancellation error of \<open>scrapeURL\<close>, and its page
  is dropped. The siblings are not abandoned: \<open>ScrapeURLs\<close> returns after every task
  has returned (with a concurrency limit other than 0), and what it returns is what the
  tasks that succeeded appended.
\<close>

theorem C1_failure_cancels_siblings:
  "(first_failure (returned (reached env sched c us w)) \<noteq> None
      \<longrightarrow> gctx (reached env sched c us w) \<noteq> None)
   \<and> (j < length us \<and> tasks (reached env sched c us w) ! j = Started
        \<and> gctx (reached env sched c us w) = Some e
      \<longrightarrow> wld (step env (WaitEnter j) (reached env sched c us w)) = wld (reached env sched c us w)
        \<and> tasks (step env (WaitEnter j) (reached env sched c us w)) ! j = Finished
        \<and> returned (step env (WaitEnter j) (reached env sched c us w))
            = returned (reached env sched c us w)
              @ [(j, [], Some (Errorf_w (str ''rate limiter wait failed: '') e))])
   \<and> (j < length us \<and> tasks (reached env sched c us w) ! j = Sleeping
        \<and> gctx (reached env sched c us w) = Some e
      \<longrightarrow> requests (wld (step env (WaitCancelled j) (reached env sched c us w)))
            = requests (wld (reached env sched c us w))
        \<and> returned (step env (WaitCancelled j) (reached env sched c us w))
            = returned (reached env sched c us w)
              @ [(j, [], Some (Errorf_w (str ''rate limiter wait failed: '') e))])
   \<and> (j < length us \<and> tasks (reached env sched c us w) ! j = Scraping fid
        \<and> gctx (reached env sched c us w) = Some e
      \<longrightarrow> returned (step env (SelectCtx j) (reached env sched c us w))
            = returned (reached env sched c us w)
              @ [(j, [], Some (Errorf_w (str ''failed to scrape '' @ us ! j @ str '': '')
                                 (Errorf_w (str ''scraping cancelled: '') e)))])
   \<and> (us \<noteq> [] \<and> ConcurrentRequests (config (scraper w)) \<noteq> 0
      \<longrightarrow> (\<exists>arts err w'. ScrapeURLs env sched c us w = Some ((arts, err), w')
            \<and> distinct (map fst (returned (final_group env sched c us w)))
            \<and> set (map fst (returned (final_group env sched c us w))) = {0..<length us}
            \<and> arts = concat (map (fst \<circ> snd)
                        (filter (\<lambda>r. snd (snd r) = None) (returned (final_group env sched c us w))))))"
proof -
  let ?g = "reached env sched c us w"
  let ?G = "final_group env sched c us w"
  have inv: "group_inv ?g" by (simp add: reached_def group_inv_run group_inv_start)
  have len: "length (tasks ?g) = length us" and us: "urls ?g = us"
    by (simp_all add: reached_def run_keeps start_def)
  have A: "first_failure (returned ?g) \<noteq> None \<longrightarrow> gctx ?g \<noteq> None"
    using inv unfolding group_inv_def by auto
  have B: "j < length us \<and> tasks ?g ! j = Started \<and> gctx ?g = Some e
      \<longrightarrow> wld (step env (WaitEnter j) ?g) = wld ?g
        \<and> tasks (step env (WaitEnter j) ?g) ! j = Finished
        \<and> returned (step env (WaitEnter j) ?g)
            = returned ?g @ [(j, [], Some (Errorf_w (str ''rate limiter wait failed: '') e))]"
    using len by (simp add: step.simps)
  have B2: "j < length us \<and> tasks ?g ! j = Sleeping \<and> gctx ?g = Some e
      \<longrightarrow> requests (wld (step env (WaitCancelled j) ?g)) = requests (wld ?g)
        \<and> returned (step env (WaitCancelled j) ?g)
            = returned ?g @ [(j, [], Some (Errorf_w (str ''rate limiter wait failed: '') e))]"
    using len by (simp add: step.simps)
  have B3: "j < length us \<and> tasks ?g ! j = Scraping fid \<and> gctx ?g = Some e
      \<longrightarrow> returned (step env (SelectCtx j) ?g)
            = returned ?g @ [(j, [], Some (Errorf_w (str ''failed to scrape '' @ us ! j @ str '': '')
                                 (Errorf_w (str ''scraping cancelled: '') e)))]"
    using len us by (simp add: step.simps select_ctx_def task_return_def)
  have C: "us \<noteq> [] \<and> ConcurrentRequests (config (scraper w)) \<noteq> 0
      \<longrightarrow> (\<exists>arts err w'. ScrapeURLs env sched c us w = Some ((arts, err), w')
            \<and> distinct (map fst (returned ?G))
            \<and> set (map fst (returned ?G)) = {0..<length us}
            \<and> arts = concat (map (fst \<circ> snd) (filter (\<lambda>r. snd (snd r) = None) (returned ?G))))"
  proof
    assume h: "us \<noteq> [] \<and> ConcurrentRequests (config (scraper w)) \<noteq> 0"
    have ginv: "group_inv ?G" by (rule final_group_props)
    have ok: "list_all (outcome_ok us) (returned ?G)"
      using ginv unfolding group_inv_def by (simp add: final_group_props)
    have a: "articles ?G = concat (map (fst \<circ> snd) (filter (\<lambda>r. snd (snd r) = None) (returned ?G)))"
      using ginv failed_append_nothing[OF ok] unfolding group_inv_def by simp
    have d: "distinct (map fst (returned ?G))" using ginv unfolding group_inv_def by blast
    have s: "set (map fst (returned ?G)) = {0..<length us}"
      using h by (intro final_group_all_returned) simp
    have ret: "ScrapeURLs env sched c us w =
           Some ((articles ?G,
                  (case gerr ?G of None \<Rightarrow> None | Some e \<Rightarrow> Some (Errorf_w (str ''scraping error: '') e))),
                 wld ?G)"
      using h by (intro ScrapeURLs_returns) simp_all
    show "\<exists>arts err w'. ScrapeURLs env sched c us w = Some ((arts, err), w')
            \<and> distinct (map fst (returned ?G))
            \<and> set (map fst (returned ?G)) = {0..<length us}
            \<and> arts = concat (map (fst \<circ> snd) (filter (\<lambda>r. snd (snd r) = None) (returned ?G)))"
      by (rule exI[of _ "articles ?G"],
          rule exI[of _ "case gerr ?G of None \<Rightarrow> None | Some e \<Rightarrow> Some (Errorf_w (str ''scraping error: '') e)"],
          rule exI[of _ "wld ?G"])
         (intro conjI ret d s a)
  qed
  from A B B2 B3 C show ?thesis by blast
qed

text \<open>
  Witness for C1. After the first task has failed on its URL the context is done; the
  second task fails when it enters its wait, or, if it was waiting already, when its
  wait is cancelled. A task that is fetching when its sibling fails can return the
  cancellation error. And \<open>ScrapeURLs\<close> returns.
\<close>

theorem C1_witness:
  "first_failure (returned (reached static_env [Go, Go, WaitEnter 0, TimerFires 0] None
                    [invalid_url, flip_url] (new_world DefaultConfig))) \<noteq> None
   \<and> gctx (reached static_env [Go, Go, WaitEnter 0, TimerFires 0] None
             [invalid_url, flip_url] (new_world DefaultConfig)) = Some Canceled
   \<and> tasks (reached static_env [Go, Go, WaitEnter 0, TimerFires 0] None
             [invalid_url, flip_url] (new_world DefaultConfig)) ! 1 = Started
   \<and> tasks (step static_env (WaitEnter 1) (reached static_env [Go, Go, WaitEnter 0, TimerFires 0] None
             [invalid_url, flip_url] (new_world DefaultConfig))) ! 1 = Finished
   \<and> tasks (reached static_env [Go, Go, WaitEnter 0, WaitEnter 1, TimerFires 0] None
             [invalid_url, flip_url] (new_world DefaultConfig)) ! 1 = Sleeping
   \<and> gctx (reached static_env [Go, Go, WaitEnter 0, WaitEnter 1, TimerFires 0] None
             [invalid_url, flip_url] (new_world DefaultConfig)) = Some Canceled
   \<and> requests (wld (step static_env (WaitCancelled 1)
         (reached static_env [Go, Go, WaitEnter 0, WaitEnter 1, TimerFires 0] None
             [invalid_url, flip_url] (new_world DefaultConfig)))) = []
   \<and> tasks (reached static_env [Go, Go, WaitEnter 0, WaitEnter 1, TimerFires 0, TimerFires 1] None
             [flip_url, invalid_url] (new_world DefaultConfig)) ! 0 = Scraping 0
   \<and> gctx (reached static_env [Go, Go, WaitEnter 0, WaitEnter 1, TimerFires 0, TimerFires 1] None
             [flip_url, invalid_url] (new_world DefaultConfig)) = Some Canceled
   \<and> last (returned (step static_env (SelectCtx 0)
         (reached static_env [Go, Go, WaitEnter 0, WaitEnter 1, TimerFires 0, TimerFires 1] None
             [flip_url, invalid_url] (new_world DefaultConfig))))
       = (0, [], Some (Errorf_w (str ''failed to scrape '' @ flip_url @ str '': '')
                         (Errorf_w (str ''scraping cancelled: '') Canceled)))
   \<and> [invalid_url, flip_url] \<noteq> [] \<and> ConcurrentRequests (config (scraper (new_world DefaultConfig))) \<noteq> 0
   \<and> (\<exists>arts err w'. ScrapeURLs static_env [Go, Go, WaitEnter 0, TimerFires 0] None
                        [invalid_url, flip_url] (new_world DefaultConfig) = Some ((arts, err), w'))"
proof -
  let ?g = "reached static_env [Go, Go, WaitEnter 0, TimerFires 0] None
              [invalid_url, flip_url] (new_world DefaultConfig)"
  let ?g2 = "reached static_env [Go, Go, WaitEnter 0, WaitEnter 1, TimerFires 0] None
              [invalid_url, flip_url] (new_world DefaultConfig)"
  let ?g3 = "reached static_env [Go, Go, WaitEnter 0, WaitEnter 1, TimerFires 0, TimerFires 1] None
              [flip_url, invalid_url] (new_world DefaultConfig)"
  have f: "first_failure (returned ?g) \<noteq> None" by (simp add: eval_defs str_def)
  have c: "gctx ?g = Some Canceled" by (simp add: eval_defs str_def)
  have t: "tasks ?g ! 1 = Started" by (simp add: eval_defs str_def)
  have t2: "tasks ?g2 ! 1 = Sleeping" and c2: "gctx ?g2 = Some Canceled" and r2: "requests (wld ?g2) = []"
    by (simp_all add: eval_defs str_def)
  have t3: "tasks ?g3 ! 0 = Scraping 0" and c3: "gctx ?g3 = Some Canceled"
    by (simp_all add: eval_defs str_def)
  have u: "[invalid_url, flip_url] \<noteq> []" by simp
  have n: "ConcurrentRequests (config (scraper (new_world DefaultConfig))) \<noteq> 0"
    by (simp add: new_world_def NewMagazineScraper_def DefaultConfig_def)
  note i1 = C1_failure_cancels_siblings[of static_env "[Go, Go, WaitEnter 0, TimerFires 0]" None
                "[invalid_url, flip_url]" "new_world DefaultConfig" 1 Canceled]
  note i2 = C1_failure_cancels_siblings[of static_env "[Go, Go, WaitEnter 0, WaitEnter 1, TimerFires 0]" None
                "[invalid_url, flip_url]" "new_world DefaultConfig" 1 Canceled]
  note i3 = C1_failure_cancels_siblings[of static_env "[Go, Go, WaitEnter 0, WaitEnter 1, TimerFires 0, TimerFires 1]"
                None "[flip_url, invalid_url]" "new_world DefaultConfig" 0 Canceled 0]
  have 1: "tasks (step static_env (WaitEnter 1) ?g) ! 1 = Finished"
    using i1 t c by simp
  have 2: "requests (wld (step static_env (WaitCancelled 1) ?g2)) = []"
    using i2 t2 c2 r2 by simp
  have 3: "last (returned (step static_env (SelectCtx 0) ?g3))
       = (0, [], Some (Errorf_w (str ''failed to scrape '' @ flip_url @ str '': '')
                         (Errorf_w (str ''scraping cancelled: '') Canceled)))"
    using i3 t3 c3 by simp
  have 4: "\<exists>arts err w'. ScrapeURLs static_env [Go, Go, WaitEnter 0, TimerFires 0] None
                        [invalid_url, flip_url] (new_world DefaultConfig) = Some ((arts, err), w')"
    using i1 u n by blast
  from f c t t2 c2 t3 c3 u n 1 2 3 4 show ?thesis by blast
qed




text \<open>
  Claim C8. With an empty list of URLs \<open>ScrapeURLs\<close> returns at once: no records and
  the error \<^verbatim>\<open>no URLs provided\<close>, whatever the context, the configuration, the
  environment and the scheduler are, and nothing is changed: the limiter, the
  collector, the frames, the goroutines and the requests are as before, so no context
  was derived and no task was started.
\<close>

theorem C8_empty_input:
  "ScrapeURLs env sched c [] w = Some (([], Some (ErrorString (str ''no URLs provided''))), w)"
  by (simp add: ScrapeURLs_def)

lemma produced_kept_refl [simp]: "produced_kept w w"
  by (simp add: produced_kept_def)

lemma produced_kept_frames: "frames w' = frames w \<Longrightarrow> produced_kept w w'"
  by (simp add: produced_kept_def)

lemma produced_kept_registered [simp]: "produced_kept w (registered url w)"
  by (auto simp: produced_kept_def nth_append)

lemma produced_kept_run_goroutine [simp]: "produced_kept w (run_goroutine env fid url w)"
  unfolding produced_kept_def
proof (intro allI impI)
  fix k
  assume a: "k < length (frames (run_goroutine env fid url w))
           \<and> (k < length (frames w) \<longrightarrow> list_all produced (f_articles (frames w ! k)))"
  then have "list_all produced (f_articles (frames w ! k))" by simp
  then show "list_all produced (f_articles (frames (run_goroutine env fid url w) ! k))"
    by (rule run_goroutine_titles)
qed

lemma step_produced_kept: "produced_kept (wld g) (wld (step env ev g))"
proof (cases ev)
  case (TimerFires i)
  then show ?thesis using scrape_begin_cases[of "urls g ! i" "wld g"] by (auto simp: step.simps)
next
  case (SelectDone i)
  then show ?thesis
    by (auto simp: step.simps split: status.splits prod.splits dest: select_done_world)
next
  case (SelectCtx i)
  have "\<And>e r w1. select_ctx e (wld g) = (r, w1) \<Longrightarrow> produced_kept (wld g) w1"
    using select_ctx_world(1) by (metis produced_kept_frames snd_conv)
  then show ?thesis using SelectCtx
    by (auto simp: step.simps split: status.splits option.splits prod.splits)
next
  case (WaitEnter i)
  then show ?thesis by (auto simp: step.simps produced_kept_frames split: option.splits)
next
  case (WaitCancelled i)
  then show ?thesis by (auto simp: step.simps produced_kept_frames split: option.splits)
qed (auto simp: step.simps Let_def split: option.splits)

lemma step_articles:
  "articles (step env ev g) = articles g
   \<or> (\<exists>i fid. i < length (tasks g) \<and> tasks g ! i = Scraping fid
        \<and> articles (step env ev g) = articles g @ f_articles (frames (wld g) ! fid))"
proof (cases ev)
  case (TimerFires i)
  then show ?thesis using scrape_begin_cases[of "urls g ! i" "wld g"]
    by (auto simp: step.simps task_return_def)
next
  case (SelectDone i)
  then show ?thesis
    by (auto simp: step.simps task_return_def select_done_def split: status.splits option.splits)
next
  case (SelectCtx i)
  then show ?thesis
    by (auto simp: step.simps task_return_def select_ctx_def split: status.splits option.splits)
qed (auto simp: step.simps Let_def split: option.splits)

lemma titles_inv_step:
  assumes t: "titles_inv n0 g" and r: "scraping_ready g" and n: "n0 \<le> length (frames (wld g))"
  shows "titles_inv n0 (step env ev g)"
proof -
  let ?g' = "step env ev g"
  have fr: "\<forall>k. n0 \<le> k \<and> k < length (frames (wld g)) \<longrightarrow> list_all produced (f_articles (frames (wld g) ! k))"
    and sc: "\<forall>i fid. i < length (tasks g) \<and> tasks g ! i = Scraping fid \<longrightarrow> n0 \<le> fid"
    and ar: "list_all produced (articles g)"
    using t unfolding titles_inv_def by blast+
  have 1: "\<forall>k. n0 \<le> k \<and> k < length (frames (wld ?g')) \<longrightarrow> list_all produced (f_articles (frames (wld ?g') ! k))"
  proof (intro allI impI)
    fix k assume k: "n0 \<le> k \<and> k < length (frames (wld ?g'))"
    have "k < length (frames (wld g)) \<longrightarrow> list_all produced (f_articles (frames (wld g) ! k))"
      using fr k by blast
    then show "list_all produced (f_articles (frames (wld ?g') ! k))"
      using step_produced_kept[of g env ev] k unfolding produced_kept_def by blast
  qed
  have 2: "\<forall>i fid. i < length (tasks ?g') \<and> tasks ?g' ! i = Scraping fid \<longrightarrow> n0 \<le> fid"
  proof (intro allI impI)
    fix i fid assume a: "i < length (tasks ?g') \<and> tasks ?g' ! i = Scraping fid"
    then have i: "i < length (tasks g)" by (simp add: step_basic)
    from step_scraping[OF i] a
    have "tasks g ! i = Scraping fid \<or> fid = length (frames (wld g))" by blast
    then show "n0 \<le> fid" using sc i n by blast
  qed
  have 3: "list_all produced (articles ?g')"
  proof (cases "articles ?g' = articles g")
    case True
    then show ?thesis using ar by simp
  next
    case False
    then obtain i fid where i: "i < length (tasks g)" and s: "tasks g ! i = Scraping fid"
      and a: "articles ?g' = articles g @ f_articles (frames (wld g) ! fid)"
      using step_articles[of env ev g] by blast
    have "n0 \<le> fid" using sc i s by blast
    moreover have "fid < length (frames (wld g))" using r i s unfolding scraping_ready_def by blast
    ultimately have "list_all produced (f_articles (frames (wld g) ! fid))" using fr by blast
    then show ?thesis using a ar by simp
  qed
  from 1 2 3 show ?thesis unfolding titles_inv_def by blast
qed

lemma frames_grow_step: "length (frames (wld g)) \<le> length (frames (wld (step env ev g)))"
  using step_world_grows[of g env ev] unfolding world_grows_def by blast

lemma titles_inv_fold:
  "titles_inv n0 g \<Longrightarrow> scraping_ready g \<Longrightarrow> n0 \<le> length (frames (wld g)) \<Longrightarrow>
   titles_inv n0 (fold (step env) evs g) \<and> n0 \<le> length (frames (wld (fold (step env) evs g)))"
proof (induction evs arbitrary: g)
  case Nil
  then show ?case by simp
next
  case (Cons ev evs)
  have 1: "titles_inv n0 (step env ev g)" using Cons.prems by (intro titles_inv_step)
  have 2: "scraping_ready (step env ev g)" using Cons.prems by (intro scraping_ready_step)
  have 3: "n0 \<le> length (frames (wld (step env ev g)))"
    using Cons.prems(3) frames_grow_step[of g env ev] by simp
  from Cons.IH[OF 1 2 3] show ?case by simp
qed

lemma titles_inv_finish_task:
  assumes "titles_inv n0 g" "scraping_ready g" "n0 \<le> length (frames (wld g))"
  shows "titles_inv n0 (finish_task env i g) \<and> n0 \<le> length (frames (wld (finish_task env i g)))"
  using finish_task_steps[of env i g] titles_inv_fold[OF assms] by auto

lemma titles_inv_finish_fold:
  "titles_inv n0 g \<Longrightarrow> scraping_ready g \<Longrightarrow> n0 \<le> length (frames (wld g)) \<Longrightarrow>
   titles_inv n0 (fold (finish_task env) is g)"
proof (induction "is" arbitrary: g)
  case Nil
  then show ?case by simp
next
  case (Cons i "is")
  have 1: "titles_inv n0 (finish_task env i g) \<and> n0 \<le> length (frames (wld (finish_task env i g)))"
    using Cons.prems by (intro titles_inv_finish_task)
  have 2: "scraping_ready (finish_task env i g)" using Cons.prems by (simp add: finish_task_keeps)
  from Cons.IH[of "finish_task env i g"] 1 2 show ?case by simp
qed

lemma final_group_titles: "list_all produced (articles (final_group env sched c us w))"
proof -
  let ?n0 = "length (frames w)"
  let ?g0 = "start c us w"
  have t0: "titles_inv ?n0 ?g0" by (auto simp: titles_inv_def start_def)
  have r0: "scraping_ready ?g0" by (rule start_invs)
  have n0: "?n0 \<le> length (frames (wld ?g0))" by (simp add: start_def)
  let ?g = "reached env sched c us w"
  have t1: "titles_inv ?n0 ?g \<and> ?n0 \<le> length (frames (wld ?g))"
    using titles_inv_fold[OF t0 r0 n0] by (simp add: reached_def run_def)
  have r1: "scraping_ready ?g" by (simp add: reached_def run_keeps start_invs)
  have "titles_inv ?n0 (final_group env sched c us w)"
    using titles_inv_finish_fold[of ?n0 ?g] t1 r1 by (simp add: final_group_def finish_all_def)
  then show ?thesis unfolding titles_inv_def by blast
qed

lemma ScrapeURLs_records_produced:
  "ScrapeURLs env sched c us w = Some ((arts, err), w') \<Longrightarrow> list_all produced arts"
  using final_group_titles[of env sched c us w]
  by (auto simp: ScrapeURLs_def Let_def split: if_splits)

text \<open>
  Claim C6. Every record that \<open>scrapeURL\<close> returns was built by the extraction callback
  and has a title that is not empty, the title being the normalised text of the block's
  \<^verbatim>\<open>h3\<close>; so has every record that \<open>ScrapeURLs\<close> returns, under every schedule of
  its concurrent tasks. On a scraper whose callbacks belong to earlier calls, a
  successful call returns exactly the blocks of the document whose normalised title is
  not empty, in document order, each with its link and its normalised summary; the
  blocks with an empty normalised title are left out. The link and the summary may be
  empty: the example document's block has neither, and its record is returned.
\<close>

theorem C6_records_have_titles:
  "list_all (\<lambda>a. Title a \<noteq> [] \<and> (\<exists>k e. a = new_article k e)) (fst (fst (scrapeURL env c t url w)))
   \<and> (case ScrapeURLs env sched gc us w of
         None \<Rightarrow> True
       | Some r \<Rightarrow> list_all (\<lambda>a. Title a \<noteq> [] \<and> (\<exists>t e. a = new_article t e)) (fst (fst r)))
   \<and> (wf_world w \<and> HasPrefix url (str ''https://flipboard.com/'') \<and> respond env url = Page els
        \<and> url \<notin> set (visited (collector (scraper w)))
      \<longrightarrow> snd (fst (scrapeURL env Live t url w)) = None
          \<and> map content (fst (fst (scrapeURL env Live t url w))) = extracted els)
   \<and> map content (fst (fst (scrapeURL static_env Live SelectFirst flip_url (new_world DefaultConfig))))
        = [(str ''Go news'', [], [])]"
proof -
  have 1: "list_all (\<lambda>a. Title a \<noteq> [] \<and> (\<exists>k e. a = new_article k e)) (fst (fst (scrapeURL env c t url w)))"
    using scrapeURL_records_produced[of env c t url w] by (simp add: produced_def[abs_def])
  have 2: "case ScrapeURLs env sched gc us w of
         None \<Rightarrow> True
       | Some r \<Rightarrow> list_all (\<lambda>a. Title a \<noteq> [] \<and> (\<exists>t e. a = new_article t e)) (fst (fst r))"
  proof (cases "ScrapeURLs env sched gc us w")
    case None
    then show ?thesis by simp
  next
    case (Some r)
    then have "ScrapeURLs env sched gc us w = Some ((fst (fst r), snd (fst r)), snd r)" by simp
    then have "list_all produced (fst (fst r))" by (rule ScrapeURLs_records_produced)
    then show ?thesis using Some by (simp add: produced_def[abs_def])
  qed
  have 3: "wf_world w \<and> HasPrefix url (str ''https://flipboard.com/'') \<and> respond env url = Page els
        \<and> url \<notin> set (visited (collector (scraper w)))
      \<longrightarrow> snd (fst (scrapeURL env Live t url w)) = None
          \<and> map content (fst (fst (scrapeURL env Live t url w))) = extracted els"
    using scrapeURL_page[of url env els w t] by blast
  have "map content (fst (fst (scrapeURL static_env Live SelectFirst flip_url (new_world DefaultConfig)))) = extracted [item]"
    using scrapeURL_page[OF prefix_flip static_page _ new_world_wf, of DefaultConfig SelectFirst]
    by (simp add: new_world_def NewMagazineScraper_def)
  with 1 2 3 show ?thesis by (simp add: item_extracted)
qed

text \<open>
  Witness for C6: the example document on a new scraper, fetched by \<open>scrapeURL\<close> and by
  \<open>ScrapeURLs\<close>.
\<close>

theorem C6_witness:
  "wf_world (new_world DefaultConfig) \<and> HasPrefix flip_url (str ''https://flipboard.com/'')
   \<and> respond static_env flip_url = Page [item]
   \<and> flip_url \<notin> set (visited (collector (scraper (new_world DefaultConfig))))
   \<and> map content (fst (fst (scrapeURL static_env Live SelectFirst flip_url (new_world DefaultConfig)))) = extracted [item]
   \<and> list_all (\<lambda>a. Title a \<noteq> []) (fst (fst (scrapeURL static_env Live SelectFirst flip_url (new_world DefaultConfig))))
   \<and> fst (fst (scrapeURL static_env Live SelectFirst flip_url (new_world DefaultConfig))) \<noteq> []
   \<and> map_option (map content \<circ> fst \<circ> fst)
        (ScrapeURLs static_env [] None [flip_url] (new_world DefaultConfig)) = Some [(str ''Go news'', [], [])]
   \<and> map_option (list_all (\<lambda>a. Title a \<noteq> []) \<circ> fst \<circ> fst)
        (ScrapeURLs static_env [] None [flip_url] (new_world DefaultConfig)) = Some True"
proof -
  have v: "flip_url \<notin> set (visited (collector (scraper (new_world DefaultConfig))))"
    by (simp add: new_world_def NewMagazineScraper_def)
  note t = C6_records_have_titles[of static_env Live SelectFirst flip_url "new_world DefaultConfig" "[]" None "[flip_url]" "[item]"]
  have c: "map content (fst (fst (scrapeURL static_env Live SelectFirst flip_url (new_world DefaultConfig)))) = extracted [item]"
    using t new_world_wf prefix_flip static_page v by blast
  then have ne: "fst (fst (scrapeURL static_env Live SelectFirst flip_url (new_world DefaultConfig))) \<noteq> []"
    by (auto simp: item_extracted)
  have l: "list_all (\<lambda>a. Title a \<noteq> []) (fst (fst (scrapeURL static_env Live SelectFirst flip_url (new_world DefaultConfig))))"
    using t by (simp add: list_all_iff)
  have s: "map_option (map content \<circ> fst \<circ> fst)
        (ScrapeURLs static_env [] None [flip_url] (new_world DefaultConfig)) = Some [(str ''Go news'', [], [])]"
    by (simp add: eval_defs str_def upt_rec content_def item_def cleanText_def TrimSpace_def Fields_def IsSpace_def)
  then obtain r where r: "ScrapeURLs static_env [] None [flip_url] (new_world DefaultConfig) = Some r"
    by auto
  have "list_all (\<lambda>a. Title a \<noteq> []) (fst (fst r))"
    using t r by (simp add: list_all_iff)
  then have s2: "map_option (list_all (\<lambda>a. Title a \<noteq> []) \<circ> fst \<circ> fst)
        (ScrapeURLs static_env [] None [flip_url] (new_world DefaultConfig)) = Some True"
    using r by simp
  from c ne l s s2 new_world_wf prefix_flip static_page v show ?thesis by simp
qed

text \<open>
  Claim C10. A \<open>scrapeURL\<close> call that fails because its context was cancelled changes
  the scraper that all calls share: it sets \<open>AllowURLRevisit\<close> of the shared collector.
  Every later call on the same scraper (whatever its environment, context and URL)
  finds the flag set and leaves it set, and the collector then fetches a URL again that
  it would have refused as visited. The same holds among the concurrent tasks of
  \<open>ScrapeURLs\<close>: the task whose select takes \<^verbatim>\<open>ctx.Done()\<close> sets the flag in the
  world the other tasks run in.
\<close>

theorem C10_cancelled_call_sets_AllowURLRevisit:
  assumes "snd (fst (scrapeURL env c t url w)) = Some (Errorf_w (str ''scraping cancelled: '') e)"
  shows "AllowURLRevisit (collector (scraper (snd (scrapeURL env c t url w))))
       \<and> AllowURLRevisit (collector (scraper (snd (scrapeURL env' c' t' url' (snd (scrapeURL env c t url w))))))
       \<and> (respond env' url' = Page els \<longrightarrow> fst (Visit env' url' (snd (scrapeURL env c t url w))) = None)
       \<and> (i < length (tasks g) \<and> tasks g ! i = Scraping fid \<and> gctx g = Some e'
           \<longrightarrow> AllowURLRevisit (collector (scraper (wld (step env (SelectCtx i) g)))))"
proof -
  have valid: "HasPrefix url (str ''https://flipboard.com/'')"
  proof (rule ccontr)
    assume "\<not> HasPrefix url (str ''https://flipboard.com/'')"
    then show False using assms by (simp add: scrapeURL_invalid Errorf_w_def)
  qed
  have "select_case c t \<noteq> TakeDone"
  proof
    assume "select_case c t = TakeDone"
    then show False using assms valid cancel_msg_neq[of _ e]
      by (simp add: scrapeURL_live_result split: option.splits)
  qed
  then obtain e0 gone where c: "select_case c t = TakeCtx e0 gone" by (cases "select_case c t") auto
  have 1: "AllowURLRevisit (collector (scraper (snd (scrapeURL env c t url w))))"
    using valid c by (simp add: scrapeURL_cancelled)
  have 2: "AllowURLRevisit (collector (scraper (snd (scrapeURL env' c' t' url' (snd (scrapeURL env c t url w))))))"
    using 1 by (rule scrapeURL_flag_mono)
  have 3: "respond env' url' = Page els \<longrightarrow> fst (Visit env' url' (snd (scrapeURL env c t url w))) = None"
    using 1 by (simp add: Visit_Page)
  have 4: "i < length (tasks g) \<and> tasks g ! i = Scraping fid \<and> gctx g = Some e'
           \<longrightarrow> AllowURLRevisit (collector (scraper (wld (step env (SelectCtx i) g))))"
    by (simp add: step.simps select_ctx_def task_return_def)
  from 1 2 3 4 show ?thesis by blast
qed

text \<open>
  Witness for C10: on a new scraper the flag is not set; a call whose context is done
  fails with the cancellation error and leaves the flag set, and a visit of the same
  URL is then not refused. In a run of \<open>ScrapeURLs\<close> whose context is cancelled while
  its task is fetching, the task's select sets the flag.
\<close>

theorem C10_witness:
  "snd (fst (scrapeURL static_env (DoneBefore DeadlineExceeded) (GoroutineFirst PickCtx) flip_url (new_world DefaultConfig)))
      = Some (Errorf_w (str ''scraping cancelled: '') DeadlineExceeded)
   \<and> \<not> AllowURLRevisit (collector (scraper (new_world DefaultConfig)))
   \<and> AllowURLRevisit (collector (scraper (snd (scrapeURL static_env (DoneBefore DeadlineExceeded) (GoroutineFirst PickCtx) flip_url (new_world DefaultConfig)))))
   \<and> flip_url \<in> set (visited (collector (scraper
         (snd (scrapeURL static_env (DoneBefore DeadlineExceeded) (GoroutineFirst PickCtx) flip_url (new_world DefaultConfig))))))
   \<and> respond static_env flip_url = Page [item]
   \<and> fst (Visit static_env flip_url
         (snd (scrapeURL static_env (DoneBefore DeadlineExceeded) (GoroutineFirst PickCtx) flip_url (new_world DefaultConfig)))) = None
   \<and> tasks (reached static_env [Go, WaitEnter 0, TimerFires 0, Cancel Canceled] None [flip_url]
               (new_world DefaultConfig)) ! 0 = Scraping 0
   \<and> gctx (reached static_env [Go, WaitEnter 0, TimerFires 0, Cancel Canceled] None [flip_url]
               (new_world DefaultConfig)) = Some Canceled
   \<and> \<not> AllowURLRevisit (collector (scraper (wld
         (reached static_env [Go, WaitEnter 0, TimerFires 0, Cancel Canceled] None [flip_url]
               (new_world DefaultConfig)))))
   \<and> AllowURLRevisit (collector (scraper (wld (step static_env (SelectCtx 0)
         (reached static_env [Go, WaitEnter 0, TimerFires 0, Cancel Canceled] None [flip_url]
               (new_world DefaultConfig))))))"
proof -
  let ?w = "snd (scrapeURL static_env (DoneBefore DeadlineExceeded) (GoroutineFirst PickCtx) flip_url (new_world DefaultConfig))"
  let ?g = "reached static_env [Go, WaitEnter 0, TimerFires 0, Cancel Canceled] None [flip_url]
              (new_world DefaultConfig)"
  have h: "snd (fst (scrapeURL static_env (DoneBefore DeadlineExceeded) (GoroutineFirst PickCtx) flip_url (new_world DefaultConfig)))
      = Some (Errorf_w (str ''scraping cancelled: '') DeadlineExceeded)"
    by (simp add: scrapeURL_cancelled prefix_flip)
  have n: "\<not> AllowURLRevisit (collector (scraper (new_world DefaultConfig)))"
    by (simp add: new_world_def NewMagazineScraper_def)
  have v: "flip_url \<in> set (visited (collector (scraper ?w)))"
    by (simp add: scrapeURL_cancelled prefix_flip select_ctx_def static_page Visit_def Let_def
          new_world_def NewMagazineScraper_def)
  have l: "0 < length (tasks ?g)" and t: "tasks ?g ! 0 = Scraping 0" and c: "gctx ?g = Some Canceled"
    and f: "\<not> AllowURLRevisit (collector (scraper (wld ?g)))"
    by (simp_all add: eval_defs str_def)
  note inst = C10_cancelled_call_sets_AllowURLRevisit[OF h, of static_env Live SelectFirst flip_url "[item]" 0 ?g 0 Canceled]
  have 1: "AllowURLRevisit (collector (scraper ?w))" using inst by blast
  have 2: "fst (Visit static_env flip_url ?w) = None" using inst static_page by blast
  have 3: "AllowURLRevisit (collector (scraper (wld (step static_env (SelectCtx 0) ?g))))"
    using inst l t c by blast
  from h n v static_page 1 2 3 t c f show ?thesis by blast
qed











lemma task_wld [simp]:
  "wld (task_fail i e g) = wld g" "wld (task_ok i a g) = wld g" "wld (task_return i u r g) = wld g"
  by (simp_all add: task_fail_def task_ok_def task_return_def split: option.splits)





subsection \<open>Cancellation of a call\<close>

lemma scrapeURL_done_as_live:
  "select_case c t = TakeDone \<Longrightarrow> scrapeURL env c t url w = scrapeURL env Live t' url w"
  by (simp add: scrapeURL_def split: prod.splits sum.splits)

lemma scrapeURL_nil_complete:
  assumes "snd (fst (scrapeURL env c t url w)) = None"
  shows "done_closed (frames (snd (scrapeURL env c t url w)) ! length (frames w))
       \<and> fst (fst (scrapeURL env c t url w)) = f_articles (frames (snd (scrapeURL env c t url w)) ! length (frames w))"
proof -
  have p: "HasPrefix url (str ''https://flipboard.com/'')"
  proof (rule ccontr)
    assume "\<not> HasPrefix url (str ''https://flipboard.com/'')"
    then show False using assms by (simp add: scrapeURL_invalid)
  qed
  have d: "select_case c t = TakeDone"
  proof (cases "select_case c t")
    case (TakeCtx e gone)
    then show ?thesis using assms p by (simp add: scrapeURL_cancelled)
  qed simp
  let ?k = "length (frames w)"
  let ?w2 = "run_goroutine env ?k url (registered url w)"
  have k: "?k < length (frames (registered url w))" by simp
  have dc: "done_closed (frames ?w2 ! ?k)"
    using k by (simp add: run_goroutine_frame split: option.splits)
  have r: "scrapeURL env c t url w = select_done ?k ?w2" using p d by (rule scrapeURL_live)
  show ?thesis using assms dc unfolding r by (simp add: select_done_def split: option.splits)
qed

text \<open>
  Counterexample to C5 as stated: the context of a call is cancelled while the page is
  still to be fetched, the goroutine then fetches the page, extracts it and closes
  \<^verbatim>\<open>done\<close> before the select is evaluated, and the select, with both cases ready,
  takes \<^verbatim>\<open>done\<close>: the call returns the page's record and no error. So it is in a
  run of \<open>ScrapeURLs\<close>: after the events up to the cancellation the task is in
  \<open>scrapeURL\<close>, the context is done and \<^verbatim>\<open>done\<close> is open; the goroutine runs, the
  select takes \<^verbatim>\<open>done\<close>, and \<open>ScrapeURLs\<close> returns the record and no error.
\<close>

theorem C5_counterexample:
  "map content (fst (fst (scrapeURL static_env (DoneBefore Canceled) (GoroutineFirst PickDone) flip_url
       (new_world DefaultConfig)))) = [(str ''Go news'', [], [])]
   \<and> snd (fst (scrapeURL static_env (DoneBefore Canceled) (GoroutineFirst PickDone) flip_url
       (new_world DefaultConfig))) = None
   \<and> tasks (reached static_env [Go, WaitEnter 0, TimerFires 0, Cancel Canceled] None [flip_url]
       (new_world DefaultConfig)) = [Scraping 0]
   \<and> gctx (reached static_env [Go, WaitEnter 0, TimerFires 0, Cancel Canceled] None [flip_url]
       (new_world DefaultConfig)) = Some Canceled
   \<and> \<not> done_closed (frames (wld (reached static_env [Go, WaitEnter 0, TimerFires 0, Cancel Canceled] None
       [flip_url] (new_world DefaultConfig))) ! 0)
   \<and> map_option (map content \<circ> fst \<circ> fst)
       (ScrapeURLs static_env [Go, WaitEnter 0, TimerFires 0, Cancel Canceled, RunVisit 0, SelectDone 0] None
          [flip_url] (new_world DefaultConfig)) = Some [(str ''Go news'', [], [])]
   \<and> map_option (snd \<circ> fst)
       (ScrapeURLs static_env [Go, WaitEnter 0, TimerFires 0, Cancel Canceled, RunVisit 0, SelectDone 0] None
          [flip_url] (new_world DefaultConfig)) = Some None"
proof -
  have v: "AllowURLRevisit (collector (scraper (new_world DefaultConfig)))
           \<or> flip_url \<notin> set (visited (collector (scraper (new_world DefaultConfig))))"
    by (simp add: new_world_def NewMagazineScraper_def)
  have e: "scrapeURL static_env (DoneBefore Canceled) (GoroutineFirst PickDone) flip_url (new_world DefaultConfig)
         = scrapeURL static_env Live SelectFirst flip_url (new_world DefaultConfig)"
    by (rule scrapeURL_done_as_live) simp
  have a: "map content (fst (fst (scrapeURL static_env (DoneBefore Canceled) (GoroutineFirst PickDone) flip_url
       (new_world DefaultConfig)))) = [(str ''Go news'', [], [])]
     \<and> snd (fst (scrapeURL static_env (DoneBefore Canceled) (GoroutineFirst PickDone) flip_url
       (new_world DefaultConfig))) = None"
    unfolding e using scrapeURL_page[OF prefix_flip static_page v new_world_wf] by (simp add: item_extracted)
  have b: "tasks (reached static_env [Go, WaitEnter 0, TimerFires 0, Cancel Canceled] None [flip_url]
       (new_world DefaultConfig)) = [Scraping 0]
     \<and> gctx (reached static_env [Go, WaitEnter 0, TimerFires 0, Cancel Canceled] None [flip_url]
       (new_world DefaultConfig)) = Some Canceled
     \<and> \<not> done_closed (frames (wld (reached static_env [Go, WaitEnter 0, TimerFires 0, Cancel Canceled] None
       [flip_url] (new_world DefaultConfig))) ! 0)"
    by (simp add: eval_defs str_def)
  have c: "map_option (map content \<circ> fst \<circ> fst)
       (ScrapeURLs static_env [Go, WaitEnter 0, TimerFires 0, Cancel Canceled, RunVisit 0, SelectDone 0] None
          [flip_url] (new_world DefaultConfig)) = Some [(str ''Go news'', [], [])]"
    by (simp add: eval_defs str_def upt_rec content_def item_def cleanText_def TrimSpace_def Fields_def IsSpace_def)
  have d: "map_option (snd \<circ> fst)
       (ScrapeURLs static_env [Go, WaitEnter 0, TimerFires 0, Cancel Canceled, RunVisit 0, SelectDone 0] None
          [flip_url] (new_world DefaultConfig)) = Some None"
    by (simp add: eval_defs str_def upt_rec item_def cleanText_def TrimSpace_def Fields_def IsSpace_def)
  from a b c d show ?thesis by blast
qed

text \<open>
  Claim C5, amended. Take a call on a URL with the required prefix whose context is
  cancelled before the goroutine has closed \<^verbatim>\<open>done\<close>. When the call reaches its
  select while \<^verbatim>\<open>done\<close> is open, it fails with the cancellation error, which wraps
  \<^verbatim>\<open>ctx.Err()\<close>, and returns no records. When the goroutine has closed
  \<^verbatim>\<open>done\<close> by then, both cases are ready: the select takes \<^verbatim>\<open>ctx.Done()\<close>,
  with the same result, or it takes \<^verbatim>\<open>done\<close>, and the call returns what a call
  with a live context returns. Whatever the context and the scheduler do, a call that
  fails returns no records, and a call that returns without error does so after its
  goroutine has finished its pass and closed \<^verbatim>\<open>done\<close>, with the records its frame
  then holds: its page is never returned in part. In \<open>ScrapeURLs\<close> the same holds of
  a task in \<open>scrapeURL\<close>: while \<^verbatim>\<open>done\<close> is open and the context is done, its
  select cannot take \<^verbatim>\<open>done\<close>, and when it takes \<^verbatim>\<open>ctx.Done()\<close> the task
  returns the cancellation error and appends nothing.
\<close>

theorem C5_cancelled_call_returns_no_records:
  "(HasPrefix url (str ''https://flipboard.com/'') \<longrightarrow>
        fst (scrapeURL env (DoneBefore e) SelectFirst url w) = ([], Some (Errorf_w (str ''scraping cancelled: '') e))
      \<and> fst (scrapeURL env (DoneBefore e) (GoroutineFirst PickCtx) url w)
          = ([], Some (Errorf_w (str ''scraping cancelled: '') e))
      \<and> scrapeURL env (DoneBefore e) (GoroutineFirst PickDone) url w = scrapeURL env Live t url w)
   \<and> (snd (fst (scrapeURL env c t url w)) \<noteq> None \<longrightarrow> fst (fst (scrapeURL env c t url w)) = [])
   \<and> (snd (fst (scrapeURL env c t url w)) = None \<longrightarrow>
        done_closed (frames (snd (scrapeURL env c t url w)) ! length (frames w))
      \<and> fst (fst (scrapeURL env c t url w))
          = f_articles (frames (snd (scrapeURL env c t url w)) ! length (frames w)))
   \<and> (i < length (tasks g) \<and> tasks g ! i = Scraping fid \<and> gctx g = Some e
        \<and> \<not> done_closed (frames (wld g) ! fid) \<longrightarrow>
        step env (SelectDone i) g = g
      \<and> returned (step env (SelectCtx i) g)
          = returned g @ [(i, [], Some (Errorf_w (str ''failed to scrape '' @ urls g ! i @ str '': '')
                                   (Errorf_w (str ''scraping cancelled: '') e)))]
      \<and> articles (step env (SelectCtx i) g) = articles g)"
proof -
  have A: "HasPrefix url (str ''https://flipboard.com/'') \<longrightarrow>
        fst (scrapeURL env (DoneBefore e) SelectFirst url w) = ([], Some (Errorf_w (str ''scraping cancelled: '') e))
      \<and> fst (scrapeURL env (DoneBefore e) (GoroutineFirst PickCtx) url w)
          = ([], Some (Errorf_w (str ''scraping cancelled: '') e))"
    by (simp add: scrapeURL_def scrape_begin_valid)
  have A': "scrapeURL env (DoneBefore e) (GoroutineFirst PickDone) url w = scrapeURL env Live t url w"
    by (rule scrapeURL_done_as_live) simp
  have B: "snd (fst (scrapeURL env c t url w)) \<noteq> None \<longrightarrow> fst (fst (scrapeURL env c t url w)) = []"
    using scrapeURL_error_no_records[of env c t url w] by blast
  have C: "snd (fst (scrapeURL env c t url w)) = None \<longrightarrow>
        done_closed (frames (snd (scrapeURL env c t url w)) ! length (frames w))
      \<and> fst (fst (scrapeURL env c t url w))
          = f_articles (frames (snd (scrapeURL env c t url w)) ! length (frames w))"
    using scrapeURL_nil_complete[of env c t url w] by blast
  have D: "i < length (tasks g) \<and> tasks g ! i = Scraping fid \<and> gctx g = Some e
        \<and> \<not> done_closed (frames (wld g) ! fid) \<longrightarrow>
        step env (SelectDone i) g = g
      \<and> returned (step env (SelectCtx i) g)
          = returned g @ [(i, [], Some (Errorf_w (str ''failed to scrape '' @ urls g ! i @ str '': '')
                                   (Errorf_w (str ''scraping cancelled: '') e)))]
      \<and> articles (step env (SelectCtx i) g) = articles g"
    by (simp add: step.simps select_ctx_def task_return_def task_fail_def)
  from A A' B C D show ?thesis by blast
qed

text \<open>
  Witness for C5: the example document on a new scraper, with a context cancelled
  before the fetch and with a live one, and the run of \<open>ScrapeURLs\<close> whose context is
  cancelled while its task is in \<open>scrapeURL\<close>.
\<close>

theorem C5_witness:
  "HasPrefix flip_url (str ''https://flipboard.com/'')
   \<and> fst (scrapeURL static_env (DoneBefore Canceled) SelectFirst flip_url (new_world DefaultConfig))
        = ([], Some (Errorf_w (str ''scraping cancelled: '') Canceled))
   \<and> snd (fst (scrapeURL static_env (DoneBefore Canceled) SelectFirst flip_url (new_world DefaultConfig))) \<noteq> None
   \<and> snd (fst (scrapeURL static_env Live SelectFirst flip_url (new_world DefaultConfig))) = None
   \<and> fst (fst (scrapeURL static_env Live SelectFirst flip_url (new_world DefaultConfig)))
        = f_articles (frames (snd (scrapeURL static_env Live SelectFirst flip_url (new_world DefaultConfig))) ! 0)
   \<and> fst (fst (scrapeURL static_env Live SelectFirst flip_url (new_world DefaultConfig))) \<noteq> []
   \<and> tasks (reached static_env [Go, WaitEnter 0, TimerFires 0, Cancel Canceled] None [flip_url]
       (new_world DefaultConfig)) ! 0 = Scraping 0
   \<and> gctx (reached static_env [Go, WaitEnter 0, TimerFires 0, Cancel Canceled] None [flip_url]
       (new_world DefaultConfig)) = Some Canceled
   \<and> \<not> done_closed (frames (wld (reached static_env [Go, WaitEnter 0, TimerFires 0, Cancel Canceled] None
       [flip_url] (new_world DefaultConfig))) ! 0)
   \<and> returned (step static_env (SelectCtx 0)
        (reached static_env [Go, WaitEnter 0, TimerFires 0, Cancel Canceled] None [flip_url] (new_world DefaultConfig)))
      = [(0, [], Some (Errorf_w (str ''failed to scrape '' @ flip_url @ str '': '')
                          (Errorf_w (str ''scraping cancelled: '') Canceled)))]"
proof -
  let ?w0 = "new_world DefaultConfig"
  let ?g = "reached static_env [Go, WaitEnter 0, TimerFires 0, Cancel Canceled] None [flip_url] ?w0"
  have l: "0 < length (tasks ?g)" and s: "tasks ?g ! 0 = Scraping 0" and c: "gctx ?g = Some Canceled"
    and d: "\<not> done_closed (frames (wld ?g) ! 0)" and u: "urls ?g ! 0 = flip_url" and r: "returned ?g = []"
    by (simp_all add: eval_defs str_def)
  have f0: "length (frames ?w0) = 0" by (simp add: new_world_def)
  have v: "AllowURLRevisit (collector (scraper ?w0)) \<or> flip_url \<notin> set (visited (collector (scraper ?w0)))"
    by (simp add: new_world_def NewMagazineScraper_def)
  have ok: "snd (fst (scrapeURL static_env Live SelectFirst flip_url ?w0)) = None"
    and ex: "map content (fst (fst (scrapeURL static_env Live SelectFirst flip_url ?w0))) = extracted [item]"
    using scrapeURL_page[OF prefix_flip static_page v new_world_wf] by simp_all
  have ne: "fst (fst (scrapeURL static_env Live SelectFirst flip_url ?w0)) \<noteq> []"
    using ex by (auto simp: item_extracted)
  note t1 = C5_cancelled_call_returns_no_records[of flip_url static_env Canceled ?w0 SelectFirst
              "DoneBefore Canceled" 0 ?g 0]
  note t2 = C5_cancelled_call_returns_no_records[of flip_url static_env Canceled ?w0 SelectFirst Live 0 ?g 0]
  have 1: "fst (scrapeURL static_env (DoneBefore Canceled) SelectFirst flip_url ?w0)
        = ([], Some (Errorf_w (str ''scraping cancelled: '') Canceled))"
    using t1 prefix_flip by blast
  then have 2: "snd (fst (scrapeURL static_env (DoneBefore Canceled) SelectFirst flip_url ?w0)) \<noteq> None" by simp
  have 3: "fst (fst (scrapeURL static_env Live SelectFirst flip_url ?w0))
        = f_articles (frames (snd (scrapeURL static_env Live SelectFirst flip_url ?w0)) ! 0)"
    using t2 ok f0 by simp
  have 4: "returned (step static_env (SelectCtx 0) ?g)
      = [(0, [], Some (Errorf_w (str ''failed to scrape '' @ flip_url @ str '': '')
                          (Errorf_w (str ''scraping cancelled: '') Canceled)))]"
    using t1 l s c d u r by simp
  from prefix_flip 1 2 ok 3 ne s c d 4 show ?thesis by blast
qed


subsection \<open>Repeated and overlapping calls\<close>








end
